theory Spec2Isabelle
  imports Main "HOL-Library.Word"
begin

section \<open>Basic types\<close>

type_synonym u8 = "8 word"
type_synonym u16 = "16 word"
type_synonym u32 = "32 word"
type_synonym u64 = "64 word"

text \<open>\<^verbatim>\<open>std::string::substr(pos, len)\<close>: the characters from \<open>pos\<close>, at most \<open>len\<close> of
  them. The C++ call throws when \<open>pos > size()\<close>; every call site below is guarded so
  that \<open>pos \<le> size()\<close>.\<close>

definition substr :: "string \<Rightarrow> nat \<Rightarrow> nat \<Rightarrow> string" where
  "substr s pos len = take len (drop pos s)"

section \<open>cli/Session.cpp: FormatTime\<close>

definition FormatTime :: "string \<Rightarrow> string" where
  "FormatTime timespec =
     (if length timespec \<noteq> 15 \<or> timespec ! 8 \<noteq> CHR ''T'' then timespec
      else substr timespec 0 4 @ ''-'' @
           substr timespec 4 2 @ ''-'' @
           substr timespec 6 2 @ '' '' @
           substr timespec 9 2 @ '':'' @
           substr timespec 11 2 @ '':'' @
           substr timespec 13 2)"

section \<open>Errors\<close>

text \<open>The C++ code signals failure by exceptions. Each exception class that can cross the
  modelled functions is a constructor; a function that can throw returns \<open>error + 'a\<close>.\<close>

datatype error =
    OperationCancelled          \<comment> \<open>\<^verbatim>\<open>mtp::OperationCancelledException\<close>, the spec's \<open>Cancelled\<close>\<close>
  | InvalidResponse u16         \<comment> \<open>\<^verbatim>\<open>mtp::InvalidResponseException\<close>, the spec's \<open>ResponseError(code)\<close>\<close>
  | RuntimeError string         \<comment> \<open>\<^verbatim>\<open>std::runtime_error(what)\<close>\<close>
  | IoError string              \<comment> \<open>a failure of the local file system or of a user stream\<close>

section \<open>mtp/ptp/JoinedObjectStream.h\<close>

subsection \<open>The stream interfaces\<close>

text \<open>\<^verbatim>\<open>IObjectInputStream\<close> and \<open>IObjectOutputStream\<close> are abstract interfaces declared in
  \<^verbatim>\<open>mtp/ptp/IObjectStream.h\<close>; the joined streams only call their virtual methods. An
  implementation is therefore a parameter: a state type \<open>'s\<close> with the methods as functions.
  \<open>Read s sz\<close> returns the bytes delivered into the buffer (the C++ method returns their
  number) and the next state of the stream; \<open>Write s data\<close> returns the number of bytes
  accepted. Either may throw.\<close>

record 's IObjectInputStream =
  GetSize :: "'s \<Rightarrow> u64"
  Read :: "'s \<Rightarrow> nat \<Rightarrow> (error + u8 list) \<times> 's"

record 's IObjectOutputStream =
  Write :: "'s \<Rightarrow> u8 list \<Rightarrow> (error + nat) \<times> 's"

text \<open>Modelled from the spec: \<^verbatim>\<open>CancellableStream\<close> (declared in \<^verbatim>\<open>IObjectStream.h\<close>) is
  ``a shared cancellation flag checked before each read/write; on trip, the current call
  fails with Cancelled''. The flag starts cleared, \<open>Cancel\<close> sets it, and \<open>CheckCancelled\<close>
  throws when it is set.\<close>

definition CheckCancelled :: "bool \<Rightarrow> error + unit" where
  "CheckCancelled cancelled = (if cancelled then Inl OperationCancelled else Inr ())"

subsection \<open>JoinedObjectInputStream\<close>

text \<open>The object state: the two underlying streams (held by pointer in C++, assumed to be
  two distinct objects used by nobody else), the sizes captured by the constructor
  (\<^verbatim>\<open>size_t\<close>, 64 bits on LP64), the exhaustion flag, the cancellation flag of the
  \<^verbatim>\<open>CancellableStream\<close> base, and the state \<open>'h\<close> that an override of the virtual hook
  \<^verbatim>\<open>OnStream1Exhausted\<close> acts on.\<close>

record ('a, 'b, 'h) JoinedObjectInputStream =
  in_stream1 :: 'a
  in_stream2 :: 'b
  in_stream1Size :: u64
  in_stream2Size :: u64
  in_stream1Exhausted :: bool
  in_cancelled :: bool
  in_hook :: 'h

definition JoinedObjectInputStream_new ::
  "'a IObjectInputStream \<Rightarrow> 'b IObjectInputStream \<Rightarrow> 'a \<Rightarrow> 'b \<Rightarrow> 'h \<Rightarrow>
   ('a, 'b, 'h) JoinedObjectInputStream" where
  "JoinedObjectInputStream_new S1 S2 s1 s2 h =
     \<lparr> in_stream1 = s1, in_stream2 = s2,
       in_stream1Size = GetSize S1 s1, in_stream2Size = GetSize S2 s2,
       in_stream1Exhausted = False, in_cancelled = False, in_hook = h \<rparr>"

definition JoinedObjectInputStream_GetSize :: "('a, 'b, 'h) JoinedObjectInputStream \<Rightarrow> u64" where
  "JoinedObjectInputStream_GetSize J = in_stream1Size J + in_stream2Size J"

definition in_Cancel ::
  "('a, 'b, 'h) JoinedObjectInputStream \<Rightarrow> ('a, 'b, 'h) JoinedObjectInputStream" where
  "in_Cancel J = J\<lparr>in_cancelled := True\<rparr>"

text \<open>\<^verbatim>\<open>JoinedObjectInputStreamBase::Read\<close>. An exception leaves the object as it was when
  thrown: the flag and the hook keep what was already done.\<close>

definition JoinedObjectInputStreamBase_Read ::
  "'a IObjectInputStream \<Rightarrow> 'b IObjectInputStream \<Rightarrow> ('h \<Rightarrow> 'h) \<Rightarrow>
   ('a, 'b, 'h) JoinedObjectInputStream \<Rightarrow> nat \<Rightarrow>
   (error + u8 list) \<times> ('a, 'b, 'h) JoinedObjectInputStream" where
  "JoinedObjectInputStreamBase_Read S1 S2 OnStream1Exhausted J sz =
     (case CheckCancelled (in_cancelled J) of
        Inl e \<Rightarrow> (Inl e, J)
      | Inr _ \<Rightarrow>
          if \<not> in_stream1Exhausted J then
            (case Read S1 (in_stream1 J) sz of
               (Inl e, s1) \<Rightarrow> (Inl e, J\<lparr>in_stream1 := s1\<rparr>)
             | (Inr d1, s1) \<Rightarrow>
                 if length d1 < sz then
                   (let J1 = J\<lparr>in_stream1 := s1, in_stream1Exhausted := True\<rparr>;
                        J2 = J1\<lparr>in_hook := OnStream1Exhausted (in_hook J1)\<rparr>
                    in case Read S2 (in_stream2 J2) (sz - length d1) of
                         (Inl e, s2) \<Rightarrow> (Inl e, J2\<lparr>in_stream2 := s2\<rparr>)
                       | (Inr d2, s2) \<Rightarrow> (Inr (d1 @ d2), J2\<lparr>in_stream2 := s2\<rparr>))
                 else (Inr d1, J\<lparr>in_stream1 := s1\<rparr>))
          else
            (case Read S2 (in_stream2 J) sz of
               (Inl e, s2) \<Rightarrow> (Inl e, J\<lparr>in_stream2 := s2\<rparr>)
             | (Inr d, s2) \<Rightarrow> (Inr d, J\<lparr>in_stream2 := s2\<rparr>)))"

subsection \<open>JoinedObjectOutputStream\<close>

record ('a, 'b, 'h) JoinedObjectOutputStream =
  out_stream1 :: 'a
  out_stream2 :: 'b
  out_stream1Exhausted :: bool
  out_cancelled :: bool
  out_hook :: 'h

definition JoinedObjectOutputStream_new ::
  "'a \<Rightarrow> 'b \<Rightarrow> 'h \<Rightarrow> ('a, 'b, 'h) JoinedObjectOutputStream" where
  "JoinedObjectOutputStream_new s1 s2 h =
     \<lparr> out_stream1 = s1, out_stream2 = s2,
       out_stream1Exhausted = False, out_cancelled = False, out_hook = h \<rparr>"

definition out_Cancel ::
  "('a, 'b, 'h) JoinedObjectOutputStream \<Rightarrow> ('a, 'b, 'h) JoinedObjectOutputStream" where
  "out_Cancel J = J\<lparr>out_cancelled := True\<rparr>"

text \<open>\<^verbatim>\<open>JoinedObjectOutputStreamBase::Write\<close>; \<^verbatim>\<open>data + r\<close> is \<open>drop r data\<close>.\<close>

definition JoinedObjectOutputStreamBase_Write ::
  "'a IObjectOutputStream \<Rightarrow> 'b IObjectOutputStream \<Rightarrow> ('h \<Rightarrow> 'h) \<Rightarrow>
   ('a, 'b, 'h) JoinedObjectOutputStream \<Rightarrow> u8 list \<Rightarrow>
   (error + nat) \<times> ('a, 'b, 'h) JoinedObjectOutputStream" where
  "JoinedObjectOutputStreamBase_Write S1 S2 OnStream1Exhausted J data =
     (case CheckCancelled (out_cancelled J) of
        Inl e \<Rightarrow> (Inl e, J)
      | Inr _ \<Rightarrow>
          if \<not> out_stream1Exhausted J then
            (case Write S1 (out_stream1 J) data of
               (Inl e, s1) \<Rightarrow> (Inl e, J\<lparr>out_stream1 := s1\<rparr>)
             | (Inr r1, s1) \<Rightarrow>
                 if r1 < length data then
                   (let J1 = J\<lparr>out_stream1 := s1, out_stream1Exhausted := True\<rparr>;
                        J2 = J1\<lparr>out_hook := OnStream1Exhausted (out_hook J1)\<rparr>
                    in case Write S2 (out_stream2 J2) (drop r1 data) of
                         (Inl e, s2) \<Rightarrow> (Inl e, J2\<lparr>out_stream2 := s2\<rparr>)
                       | (Inr r2, s2) \<Rightarrow> (Inr (r1 + r2), J2\<lparr>out_stream2 := s2\<rparr>))
                 else (Inr r1, J\<lparr>out_stream1 := s1\<rparr>))
          else
            (case Write S2 (out_stream2 J) data of
               (Inl e, s2) \<Rightarrow> (Inl e, J\<lparr>out_stream2 := s2\<rparr>)
             | (Inr r, s2) \<Rightarrow> (Inr r, J\<lparr>out_stream2 := s2\<rparr>)))"

subsection \<open>Clients of a stream\<close>

text \<open>Modelled from the spec: ``returning \<open>n < requested\<close> signals end-of-stream''. The code
  that drives a stream (the transport's data phase) is not part of the modelled files.
  \<open>readAll rd n s\<close> is the spec's \<open>readAll\<close>: it calls \<open>rd\<close> with the chunk size \<open>n\<close> until a
  call returns fewer than \<open>n\<close> bytes, and returns all bytes read. On a stream that never
  returns short it does not return (\<open>None\<close>). \<open>writeAll wr s cs\<close> offers the chunks \<open>cs\<close> one
  after the other until one is accepted short, and returns the number of bytes accepted.\<close>

partial_function (option) readAll ::
  "('s \<Rightarrow> nat \<Rightarrow> (error + u8 list) \<times> 's) \<Rightarrow> nat \<Rightarrow> 's \<Rightarrow> (error + u8 list) option" where
  "readAll rd n s =
     (case rd s n of
        (Inl e, s') \<Rightarrow> Some (Inl e)
      | (Inr d, s') \<Rightarrow>
          if length d < n then Some (Inr d)
          else Option.bind (readAll rd n s')
                 (\<lambda>r. Some (case r of Inl e \<Rightarrow> Inl e | Inr ds \<Rightarrow> Inr (d @ ds))))"

fun writeAll ::
  "('s \<Rightarrow> u8 list \<Rightarrow> (error + nat) \<times> 's) \<Rightarrow> 's \<Rightarrow> u8 list list \<Rightarrow> (error + nat) \<times> 's" where
  "writeAll wr s [] = (Inr 0, s)"
| "writeAll wr s (c # cs) =
     (case wr s c of
        (Inl e, s') \<Rightarrow> (Inl e, s')
      | (Inr r, s') \<Rightarrow>
          if r < length c then (Inr r, s')
          else (case writeAll wr s' cs of
                  (Inl e, s'') \<Rightarrow> (Inl e, s'')
                | (Inr t, s'') \<Rightarrow> (Inr (r + t), s'')))"

text \<open>The contract of a well-behaved stream, from the same sentence of the spec. An input
  stream with (remaining) content \<open>content s\<close> delivers the next \<open>n\<close> bytes of it, fewer only
  at its end. An output stream with log \<open>written s\<close> and room \<open>room s\<close> (\<open>None\<close>: it takes
  whatever it is offered, as a growing buffer does; \<open>Some c\<close>: \<open>c\<close> more bytes fit, as in a
  buffer of fixed size) accepts of the bytes it is offered those that fit, appends exactly
  these to its log and returns their number; fewer only when it is full, and a stream that
  has returned short has no room left.\<close>

definition reads_content :: "'s IObjectInputStream \<Rightarrow> ('s \<Rightarrow> u8 list) \<Rightarrow> bool" where
  "reads_content S content \<longleftrightarrow>
     (\<forall>s n. fst (Read S s n) = Inr (take n (content s)) \<and>
            content (snd (Read S s n)) = drop n (content s))"

definition accept :: "nat option \<Rightarrow> u8 list \<Rightarrow> u8 list" where
  "accept room d = (case room of None \<Rightarrow> d | Some c \<Rightarrow> take c d)"

definition room_after :: "nat option \<Rightarrow> nat \<Rightarrow> nat option" where
  "room_after room k = (case room of None \<Rightarrow> None | Some c \<Rightarrow> Some (c - k))"

definition writes_room ::
  "'s IObjectOutputStream \<Rightarrow> ('s \<Rightarrow> u8 list) \<Rightarrow> ('s \<Rightarrow> nat option) \<Rightarrow> bool" where
  "writes_room S written room \<longleftrightarrow>
     (\<forall>s d. fst (Write S s d) = Inr (length (accept (room s) d)) \<and>
            written (snd (Write S s d)) = written s @ accept (room s) d \<and>
            room (snd (Write S s d)) = room_after (room s) (length d))"

text \<open>The room that a joined output stream has in its first stream: none once the first
  stream is exhausted, since \<open>Write\<close> does not call it any more.\<close>

definition out_room1 ::
  "('a \<Rightarrow> nat option) \<Rightarrow> ('a, 'b, 'h) JoinedObjectOutputStream \<Rightarrow> nat option" where
  "out_room1 room J = (if out_stream1Exhausted J then Some 0 else room (out_stream1 J))"

subsection \<open>Byte-array streams and call sequences\<close>

text \<open>Modelled from the spec: the byte-array streams (\<^verbatim>\<open>mtp/ptp/ByteArrayObjectStream.h\<close>)
  ``read from or write to an in-memory buffer''. The input stream holds its data and a read
  offset; the growing output stream appends everything; the fixed-size output stream
  accepts bytes up to its capacity and then returns short.\<close>

definition ByteArrayObjectInputStream :: "(u8 list \<times> nat) IObjectInputStream" where
  "ByteArrayObjectInputStream =
     \<lparr> GetSize = (\<lambda>(data, offset). of_nat (length data)),
       Read = (\<lambda>(data, offset) n.
                 (Inr (take n (drop offset data)), (data, offset + min n (length data - offset)))) \<rparr>"

definition ByteArrayObjectOutputStream :: "(u8 list) IObjectOutputStream" where
  "ByteArrayObjectOutputStream = \<lparr> Write = (\<lambda>buf d. (Inr (length d), buf @ d)) \<rparr>"

definition FixedSizeByteArrayObjectOutputStream :: "(u8 list \<times> nat) IObjectOutputStream" where
  "FixedSizeByteArrayObjectOutputStream =
     \<lparr> Write = (\<lambda>(buf, capacity) d.
                  (let n = min (length d) (capacity - length buf)
                   in (Inr n, (buf @ take n d, capacity)))) \<rparr>"

text \<open>A client's use of a joined stream over its lifetime: a sequence of \<open>Read\<close> (or
  \<open>Write\<close>) calls, whose results the client consumes, and of \<open>Cancel\<close> calls.\<close>

datatype 'x call = Call 'x | Cancel

fun in_calls ::
  "'a IObjectInputStream \<Rightarrow> 'b IObjectInputStream \<Rightarrow> ('h \<Rightarrow> 'h) \<Rightarrow>
   ('a, 'b, 'h) JoinedObjectInputStream \<Rightarrow> nat call list \<Rightarrow>
   ('a, 'b, 'h) JoinedObjectInputStream" where
  "in_calls S1 S2 f J [] = J"
| "in_calls S1 S2 f J (Call n # cs) = in_calls S1 S2 f (snd (JoinedObjectInputStreamBase_Read S1 S2 f J n)) cs"
| "in_calls S1 S2 f J (Cancel # cs) = in_calls S1 S2 f (in_Cancel J) cs"

fun out_calls ::
  "'a IObjectOutputStream \<Rightarrow> 'b IObjectOutputStream \<Rightarrow> ('h \<Rightarrow> 'h) \<Rightarrow>
   ('a, 'b, 'h) JoinedObjectOutputStream \<Rightarrow> u8 list call list \<Rightarrow>
   ('a, 'b, 'h) JoinedObjectOutputStream" where
  "out_calls S1 S2 f J [] = J"
| "out_calls S1 S2 f J (Call d # cs) = out_calls S1 S2 f (snd (JoinedObjectOutputStreamBase_Write S1 S2 f J d)) cs"
| "out_calls S1 S2 f J (Cancel # cs) = out_calls S1 S2 f (out_Cancel J) cs"

section \<open>cli/Session.cpp: path resolution\<close>

subsection \<open>Strings\<close>

text \<open>\<^verbatim>\<open>std::string::find(c, pos)\<close> and \<^verbatim>\<open>rfind(c)\<close>; \<open>None\<close> is \<^verbatim>\<open>npos\<close>.\<close>

definition find_char :: "string \<Rightarrow> char \<Rightarrow> nat \<Rightarrow> nat option" where
  "find_char s c pos =
     (if c \<in> set (drop pos s) then Some (pos + length (takeWhile (\<lambda>x. x \<noteq> c) (drop pos s)))
      else None)"

definition rfind_char :: "string \<Rightarrow> char \<Rightarrow> nat option" where
  "rfind_char s c =
     (if c \<in> set s then Some (length s - 1 - length (takeWhile (\<lambda>x. x \<noteq> c) (rev s)))
      else None)"

text \<open>The C library's \<^verbatim>\<open>tolower\<close> (C locale) and \<^verbatim>\<open>strncasecmp(a, b, n) == 0\<close> on the
  \<^verbatim>\<open>c_str()\<close> of two strings: the character after the last one is the terminating NUL, and
  the comparison stops after a NUL.\<close>

definition tolower :: "char \<Rightarrow> char" where
  "tolower c =
     (case map_of (zip ''ABCDEFGHIJKLMNOPQRSTUVWXYZ'' ''abcdefghijklmnopqrstuvwxyz'') c of
        Some l \<Rightarrow> l
      | None \<Rightarrow> c)"

fun strncasecmp_eq :: "string \<Rightarrow> string \<Rightarrow> nat \<Rightarrow> bool" where
  "strncasecmp_eq a b 0 = True"
| "strncasecmp_eq a b (Suc n) =
     (let ca = (case a of [] \<Rightarrow> CHR 0x00 | x # _ \<Rightarrow> x);
          cb = (case b of [] \<Rightarrow> CHR 0x00 | y # _ \<Rightarrow> y)
      in if tolower ca \<noteq> tolower cb then False
         else if ca = CHR 0x00 then True
         else strncasecmp_eq (tl a) (tl b) n)"

definition BeginsWith :: "string \<Rightarrow> string \<Rightarrow> bool" where
  "BeginsWith str prefix =
     (if length prefix > length str then False
      else strncasecmp_eq str prefix (length prefix))"

subsection \<open>The MTP session\<close>

type_synonym ObjectId = u32
type_synonym StorageId = u32
type_synonym ObjectFormat = u16

text \<open>Modelled from the spec: the reserved values of \<^verbatim>\<open>mtp::Session\<close>: ``\<open>Device = 0\<close>,
  \<open>Root = 0xFFFFFFFF\<close>, \<open>AllStorages = 0xFFFFFFFF\<close>, \<open>AnyStorage = 0\<close>''. The numeric codes of
  the two object formats the code names are those of the PTP standard.\<close>

definition Device :: ObjectId where "Device = 0"
definition Root :: ObjectId where "Root = 0xFFFFFFFF"
definition AllStorages :: StorageId where "AllStorages = 0xFFFFFFFF"
definition AnyStorage :: StorageId where "AnyStorage = 0"
definition Any :: ObjectFormat where "Any = 0"
definition Association :: ObjectFormat where "Association = 0x3001"

datatype ObjectProperty = ObjectFilename | ObjectFormatCode | ObjectSize | ParentObject

text \<open>\<^verbatim>\<open>msg::ObjectInfo\<close>, with the fields the modelled code sets (\<open>Size\<close> is the argument of
  \<^verbatim>\<open>SetSize\<close>), and the \<^verbatim>\<open>NewObjectInfo\<close> that \<^verbatim>\<open>SendObjectInfo\<close> returns.\<close>

record ObjectInfo =
  Filename :: string
  ObjectFormat :: ObjectFormat
  Size :: u64

record NewObjectInfo =
  StorageId :: StorageId
  ParentObjectId :: ObjectId
  ObjectId :: ObjectId

text \<open>\<^verbatim>\<open>mtp::Session\<close> (\<^verbatim>\<open>mtp/ptp/Session.h\<close>) talks to the device; \<^verbatim>\<open>cli::Session\<close> only calls
  its methods. It is a parameter: \<open>'w\<close> is the state of the device, each method is a function
  of it, and each can throw (an \<^verbatim>\<open>InvalidResponseException\<close> for a response other than OK, or
  a transport error). The queries do not change the objects on the device and are functions
  of the state; the operations that send something return the next state. \<open>GetObject\<close>
  returns the bytes that reached the output stream, also when it then fails.\<close>

record 'w Session =
  GetObjectHandles :: "'w \<Rightarrow> StorageId \<Rightarrow> ObjectFormat \<Rightarrow> ObjectId \<Rightarrow> error + ObjectId list"
  GetObjectStringProperty :: "'w \<Rightarrow> ObjectId \<Rightarrow> ObjectProperty \<Rightarrow> error + string"
  GetObjectIntegerProperty :: "'w \<Rightarrow> ObjectId \<Rightarrow> ObjectProperty \<Rightarrow> error + u64"
  GetObjectParent :: "'w \<Rightarrow> ObjectId \<Rightarrow> error + ObjectId"
  GetObjectInfo :: "'w \<Rightarrow> ObjectId \<Rightarrow> error + ObjectInfo"
  GetObject :: "'w \<Rightarrow> ObjectId \<Rightarrow> (error + unit) \<times> u8 list"
  SendObjectInfo :: "'w \<Rightarrow> ObjectInfo \<Rightarrow> StorageId \<Rightarrow> ObjectId \<Rightarrow> (error + NewObjectInfo) \<times> 'w"
  SendObject :: "'w \<Rightarrow> u8 list \<Rightarrow> (error + unit) \<times> 'w"

subsection \<open>ResolveObjectChild and Resolve\<close>

text \<open>The exception of \<^verbatim>\<open>ResolveObjectChild\<close>, a \<^verbatim>\<open>std::runtime_error\<close>, is the spec's
  \<open>PathNotFound\<close>; its message keeps the component.\<close>

definition PathNotFound :: "string \<Rightarrow> error" where
  "PathNotFound entity = RuntimeError (''could not find '' @ entity @ '' in path'')"

text \<open>The \<^verbatim>\<open>for\<close> loop of \<^verbatim>\<open>ResolveObjectChild\<close> over the handles, then the function.\<close>

fun ResolveObjectChild_loop ::
  "'w Session \<Rightarrow> 'w \<Rightarrow> string \<Rightarrow> ObjectId list \<Rightarrow> error + ObjectId" where
  "ResolveObjectChild_loop session w entity [] = Inl (PathNotFound entity)"
| "ResolveObjectChild_loop session w entity (object # objectList) =
     (case GetObjectStringProperty session w object ObjectFilename of
        Inl e \<Rightarrow> Inl e
      | Inr name \<Rightarrow>
          if name = entity then Inr object
          else ResolveObjectChild_loop session w entity objectList)"

definition ResolveObjectChild ::
  "'w Session \<Rightarrow> 'w \<Rightarrow> StorageId \<Rightarrow> ObjectId \<Rightarrow> string \<Rightarrow> error + ObjectId" where
  "ResolveObjectChild session w cs parent entity =
     (case GetObjectHandles session w cs Any parent of
        Inl e \<Rightarrow> Inl e
      | Inr objectList \<Rightarrow> ResolveObjectChild_loop session w entity objectList)"

text \<open>The \<^verbatim>\<open>for\<close> loop of \<^verbatim>\<open>Resolve\<close>: \<open>p\<close> is the position in \<open>path\<close>, and \<open>oid\<close> (the
  variable \<^verbatim>\<open>id\<close>) the object reached so far.\<close>

function Resolve_loop ::
  "'w Session \<Rightarrow> 'w \<Rightarrow> StorageId \<Rightarrow> string \<Rightarrow> nat \<Rightarrow> ObjectId \<Rightarrow> error + ObjectId" where
  "Resolve_loop session w cs path p oid =
     (if p < length path then
        (let next = (case find_char path CHR ''/'' p of None \<Rightarrow> length path | Some i \<Rightarrow> i);
             entity = substr path p (next - p)
         in if entity = [] \<or> entity = ''.'' then Resolve_loop session w cs path (next + 1) oid
            else if entity = ''..'' then
              (case GetObjectParent session w oid of
                 Inl e \<Rightarrow> Inl e
               | Inr parent \<Rightarrow>
                   Resolve_loop session w cs path (next + 1)
                     (if parent = Device then Root else parent))
            else
              (case ResolveObjectChild session w cs oid entity of
                 Inl e \<Rightarrow> Inl e
               | Inr child \<Rightarrow> Resolve_loop session w cs path (next + 1) child))
      else Inr oid)"
  by pat_completeness auto
termination
  by (relation "measure (\<lambda>(session, w, cs, path, p, oid). length path - p)")
     (auto simp: find_char_def split: option.splits if_splits)

text \<open>\<open>cd\<close> is the member \<^verbatim>\<open>_cd\<close> and \<open>cs\<close> the member \<^verbatim>\<open>_cs\<close> of \<^verbatim>\<open>cli::Session\<close>.\<close>

definition Resolve ::
  "'w Session \<Rightarrow> 'w \<Rightarrow> StorageId \<Rightarrow> ObjectId \<Rightarrow> string \<Rightarrow> error + ObjectId" where
  "Resolve session w cs cd path =
     Resolve_loop session w cs path 0 (if BeginsWith path ''/'' then Root else cd)"

definition GetFilename :: "string \<Rightarrow> string" where
  "GetFilename path =
     (case rfind_char path CHR ''/'' of
        None \<Rightarrow> path
      | Some pos \<Rightarrow> drop (pos + 1) path)"

text \<open>The components that the loop of \<open>Resolve\<close> visits in a path, in order: each runs up to
  the next \<open>/\<close>; nothing follows a final \<open>/\<close>. \<open>Resolve_entities\<close> is the loop body applied to
  them one after the other. Both serve to reason about \<open>Resolve_loop\<close>, which is shown to be
  their composition.\<close>

function entities :: "string \<Rightarrow> string list" where
  "entities s =
     (if s = [] then []
      else takeWhile (\<lambda>c. c \<noteq> CHR ''/'') s #
           entities (drop 1 (dropWhile (\<lambda>c. c \<noteq> CHR ''/'') s)))"
  by pat_completeness auto
termination
proof (relation "measure length")
  show "wf (measure length)" by simp
next
  fix s :: string
  assume "s \<noteq> []"
  then have "0 < length s" by simp
  moreover have "length (dropWhile (\<lambda>c. c \<noteq> CHR ''/'') s) \<le> length s"
    by (rule length_dropWhile_le)
  ultimately have "length (dropWhile (\<lambda>c. c \<noteq> CHR ''/'') s) - 1 < length s"
    by arith
  then show "(drop 1 (dropWhile (\<lambda>c. c \<noteq> CHR ''/'') s), s) \<in> measure length"
    by simp
qed

fun Resolve_entities ::
  "'w Session \<Rightarrow> 'w \<Rightarrow> StorageId \<Rightarrow> ObjectId \<Rightarrow> string list \<Rightarrow> error + ObjectId" where
  "Resolve_entities session w cs oid [] = Inr oid"
| "Resolve_entities session w cs oid (entity # es) =
     (if entity = [] \<or> entity = ''.'' then Resolve_entities session w cs oid es
      else if entity = ''..'' then
        (case GetObjectParent session w oid of
           Inl e \<Rightarrow> Inl e
         | Inr parent \<Rightarrow>
             Resolve_entities session w cs (if parent = Device then Root else parent) es)
      else
        (case ResolveObjectChild session w cs oid entity of
           Inl e \<Rightarrow> Inl e
         | Inr child \<Rightarrow> Resolve_entities session w cs child es))"

section \<open>cli/Session.cpp: recursive put and get\<close>

text \<open>Modelled from the spec: \<^verbatim>\<open>mtp::Session::CreateDirectory\<close> (\<^verbatim>\<open>mtp/ptp/Session.cpp\<close>) creates
  a directory object ``via \<open>SendObjectInfo\<close> with format=Association''.\<close>

definition CreateDirectory ::
  "'w Session \<Rightarrow> 'w \<Rightarrow> string \<Rightarrow> ObjectId \<Rightarrow> (error + NewObjectInfo) \<times> 'w" where
  "CreateDirectory session w name parentId =
     SendObjectInfo session w \<lparr> Filename = name, ObjectFormat = Association, Size = 0 \<rparr>
       AnyStorage parentId"

text \<open>\<^verbatim>\<open>MakeOrResolveDirectory\<close>: the \<^verbatim>\<open>catch\<close> clause takes every \<^verbatim>\<open>std::exception\<close>, and the
  lookup that follows it is given \<open>src\<close>.\<close>

definition MakeOrResolveDirectory ::
  "'w Session \<Rightarrow> 'w \<Rightarrow> StorageId \<Rightarrow> ObjectId \<Rightarrow> string \<Rightarrow> string \<Rightarrow> (error + ObjectId) \<times> 'w" where
  "MakeOrResolveDirectory session w cs parentId dst src =
     (case CreateDirectory session w (GetFilename dst) parentId of
        (Inr noi, w1) \<Rightarrow> (Inr (ObjectId noi), w1)
      | (Inl ex, w1) \<Rightarrow> (ResolveObjectChild session w1 cs parentId src, w1))"

text \<open>What \<^verbatim>\<open>Put\<close> finds at a local path: \<^verbatim>\<open>stat\<close> fails; a regular file, which the
  constructor of \<^verbatim>\<open>ObjectInputStream\<close> can open or not; a directory, which \<^verbatim>\<open>opendir\<close> can
  open or not. An open directory is the sequence of results of \<^verbatim>\<open>readdir_r\<close>: entries (a
  name and what is found at \<open>src/name\<close>), then the end or an error. Local files are only read,
  so the tree is not part of the state.\<close>

datatype lnode =
    StatFails
  | RegularFile "u8 list"
  | UnreadableFile
  | Directory dirstream
  | UnreadableDirectory
and dirstream =
    EndOfDir
  | ReaddirFails
  | Entry string lnode dirstream

text \<open>\<^verbatim>\<open>Put(parentId, dst, src)\<close> and its \<^verbatim>\<open>while\<close> loop. \<open>ObjectFormatFromFilename\<close> is a
  function of the library and a parameter here. The progress bar is shown inside a
  \<^verbatim>\<open>try\<close> block that swallows its exceptions and is left out; so are the texts of
  \<^verbatim>\<open>strerror\<close> in the messages.\<close>

fun Put ::
  "'w Session \<Rightarrow> (string \<Rightarrow> ObjectFormat) \<Rightarrow> StorageId \<Rightarrow> ObjectId \<Rightarrow> string \<Rightarrow> string \<Rightarrow>
   lnode \<Rightarrow> 'w \<Rightarrow> (error + unit) \<times> 'w"
and Put_loop ::
  "'w Session \<Rightarrow> (string \<Rightarrow> ObjectFormat) \<Rightarrow> StorageId \<Rightarrow> ObjectId \<Rightarrow> string \<Rightarrow> string \<Rightarrow>
   dirstream \<Rightarrow> 'w \<Rightarrow> (error + unit) \<times> 'w" where
  "Put session ObjectFormatFromFilename cs parentId dst src StatFails w =
     (Inl (RuntimeError ''stat failed''), w)"
| "Put session ObjectFormatFromFilename cs parentId dst src (Directory dir) w =
     (case MakeOrResolveDirectory session w cs parentId dst src of
        (Inl e, w1) \<Rightarrow> (Inl e, w1)
      | (Inr dirId, w1) \<Rightarrow> Put_loop session ObjectFormatFromFilename cs dirId dst src dir w1)"
| "Put session ObjectFormatFromFilename cs parentId dst src UnreadableDirectory w =
     (case MakeOrResolveDirectory session w cs parentId dst src of
        (Inl e, w1) \<Rightarrow> (Inl e, w1)
      | (Inr dirId, w1) \<Rightarrow> (Inr (), w1))"
| "Put session ObjectFormatFromFilename cs parentId dst src UnreadableFile w =
     (Inl (IoError ''open''), w)"
| "Put session ObjectFormatFromFilename cs parentId dst src (RegularFile bytes) w =
     (let oi = \<lparr> Filename = GetFilename dst, ObjectFormat = ObjectFormatFromFilename src,
                 Size = of_nat (length bytes) \<rparr>
      in case SendObjectInfo session w oi AnyStorage parentId of
           (Inl e, w1) \<Rightarrow> (Inl e, w1)
         | (Inr noi, w1) \<Rightarrow> SendObject session w1 bytes)"
| "Put_loop session ObjectFormatFromFilename cs dirId dst src EndOfDir w = (Inr (), w)"
| "Put_loop session ObjectFormatFromFilename cs dirId dst src ReaddirFails w =
     (Inl (RuntimeError ''readdir failed''), w)"
| "Put_loop session ObjectFormatFromFilename cs dirId dst src (Entry fname node rest) w =
     (if fname = ''.'' \<or> fname = ''..'' then
        Put_loop session ObjectFormatFromFilename cs dirId dst src rest w
      else
        (case Put session ObjectFormatFromFilename cs dirId (dst @ ''/'' @ fname)
                (src @ ''/'' @ fname) node w of
           (Inl e, w1) \<Rightarrow> (Inl e, w1)
         | (Inr u, w1) \<Rightarrow> Put_loop session ObjectFormatFromFilename cs dirId dst src rest w1))"



text \<open>The entries \<open>es\<close> of a directory followed by \<open>rest\<close>, and the meaning that the spec gives
  to the loop of \<open>Put\<close> (``recurse on each entry''): the entries are put one after the
  other, in order, up to the first one that fails.\<close>

fun dirstream_of :: "(string \<times> lnode) list \<Rightarrow> dirstream \<Rightarrow> dirstream" where
  "dirstream_of [] rest = rest"
| "dirstream_of ((fname, node) # es) rest = Entry fname node (dirstream_of es rest)"

fun spec_put_each ::
  "'w Session \<Rightarrow> (string \<Rightarrow> ObjectFormat) \<Rightarrow> StorageId \<Rightarrow> ObjectId \<Rightarrow> string \<Rightarrow> string \<Rightarrow>
   (string \<times> lnode) list \<Rightarrow> 'w \<Rightarrow> (error + unit) \<times> 'w" where
  "spec_put_each session F cs dirId dst src [] w = (Inr (), w)"
| "spec_put_each session F cs dirId dst src ((fname, node) # es) w =
     (case Put session F cs dirId (dst @ ''/'' @ fname) (src @ ''/'' @ fname) node w of
        (Inl e, w1) \<Rightarrow> (Inl e, w1)
      | (Inr u, w1) \<Rightarrow> spec_put_each session F cs dirId dst src es w1)"

section \<open>A device and a local file system as concrete inputs\<close>

text \<open>A small device: its objects in the order of their creation, and the file names for
  which it refuses \<open>SendObjectInfo\<close> with the response \<open>AccessDenied = 0x200F\<close>. Objects at the
  top level have the parent \<open>Device\<close>; an unknown handle is answered with
  \<open>InvalidObjectHandle = 0x2009\<close>. \<open>SendObject\<close> fills the object created last.\<close>

record obj =
  o_id :: ObjectId
  o_parent :: ObjectId
  o_name :: string
  o_format :: ObjectFormat
  o_data :: "u8 list"

record device =
  objects :: "obj list"
  refused :: "string list"

definition lookup :: "device \<Rightarrow> ObjectId \<Rightarrow> (obj \<Rightarrow> 'a) \<Rightarrow> error + 'a" where
  "lookup w i f =
     (case find (\<lambda>ob. o_id ob = i) (objects w) of
        None \<Rightarrow> Inl (InvalidResponse 0x2009)
      | Some ob \<Rightarrow> Inr (f ob))"

definition TestSession :: "device Session" where
  "TestSession =
     \<lparr> GetObjectHandles = (\<lambda>w st fmt parent.
          Inr (map o_id (filter (\<lambda>ob. o_parent ob = (if parent = Root then Device else parent))
                           (objects w)))),
       GetObjectStringProperty = (\<lambda>w i p. lookup w i o_name),
       GetObjectIntegerProperty = (\<lambda>w i p. lookup w i (\<lambda>ob.
          case p of ObjectFormatCode \<Rightarrow> ucast (o_format ob)
                  | ObjectSize \<Rightarrow> of_nat (length (o_data ob))
                  | ParentObject \<Rightarrow> ucast (o_parent ob)
                  | ObjectFilename \<Rightarrow> 0)),
       GetObjectParent = (\<lambda>w i. lookup w i o_parent),
       GetObjectInfo = (\<lambda>w i. lookup w i (\<lambda>ob.
          \<lparr> Filename = o_name ob, ObjectFormat = o_format ob,
            Size = of_nat (length (o_data ob)) \<rparr>)),
       GetObject = (\<lambda>w i. case lookup w i o_data of
                             Inl e \<Rightarrow> (Inl e, [])
                           | Inr bytes \<Rightarrow> (Inr (), bytes)),
       SendObjectInfo = (\<lambda>w oi st parent.
          if Filename oi \<in> set (refused w) then (Inl (InvalidResponse 0x200F), w)
          else
            (let new = of_nat (length (objects w)) + 1
             in (Inr \<lparr> StorageId = 0x10001, ParentObjectId = parent, ObjectId = new \<rparr>,
                 w\<lparr>objects := objects w @
                      [\<lparr> o_id = new, o_parent = (if parent = Root then Device else parent),
                         o_name = Filename oi, o_format = ObjectFormat oi, o_data = [] \<rparr>]\<rparr>))),
       SendObject = (\<lambda>w bytes.
          (Inr (), w\<lparr>objects := butlast (objects w) @
                      map (\<lambda>ob. ob\<lparr>o_data := bytes\<rparr>) (drop (length (objects w) - 1) (objects w))\<rparr>)) \<rparr>"


definition ExampleDevice :: device where
  "ExampleDevice =
     \<lparr> objects =
         [\<lparr> o_id = 1, o_parent = Device, o_name = ''photos'', o_format = Association, o_data = [] \<rparr>,
          \<lparr> o_id = 2, o_parent = 1, o_name = ''a.jpg'', o_format = 0x3801, o_data = [1, 2, 3] \<rparr>,
          \<lparr> o_id = 3, o_parent = 1, o_name = ''b.jpg'', o_format = 0x3801, o_data = [4, 5] \<rparr>,
          \<lparr> o_id = 4, o_parent = Device, o_name = ''b'', o_format = 0x3000, o_data = [9] \<rparr>,
          \<lparr> o_id = 5, o_parent = Device, o_name = ''Photos'', o_format = Association, o_data = [] \<rparr>,
          \<lparr> o_id = 6, o_parent = Device, o_name = ''b'', o_format = 0x3000, o_data = [] \<rparr>],
       refused = [''photos''] \<rparr>"

declare entities.simps [simp del] Resolve_loop.simps [simp del]

section \<open>Theorems\<close>

subsection \<open>FormatTime\<close>

lemma list15:
  assumes "length (xs :: 'a list) = 15"
  shows "xs = [xs ! 0, xs ! 1, xs ! 2, xs ! 3, xs ! 4, xs ! 5, xs ! 6, xs ! 7, xs ! 8,
               xs ! 9, xs ! 10, xs ! 11, xs ! 12, xs ! 13, xs ! 14]"
  using assms by (intro nth_equalityI) (auto simp: nth_Cons' less_Suc_eq numeral_eq_Suc)

text \<open>C9: a 15-character time stamp \<open>YYYYMMDDThhmmss\<close> with \<open>T\<close> at offset 8 is displayed
  as \<open>YYYY-MM-DD hh:mm:ss\<close>: the digits keep their order, \<open>-\<close> separates the date fields, a
  blank replaces the \<open>T\<close>, and \<open>:\<close> separates the time fields.\<close>

theorem C9_FormatTime_separators:
  assumes "length timespec = 15" and "timespec ! 8 = CHR ''T''"
  shows "FormatTime timespec =
           [timespec ! 0, timespec ! 1, timespec ! 2, timespec ! 3, CHR ''-'',
            timespec ! 4, timespec ! 5, CHR ''-'',
            timespec ! 6, timespec ! 7, CHR '' '',
            timespec ! 9, timespec ! 10, CHR '':'',
            timespec ! 11, timespec ! 12, CHR '':'',
            timespec ! 13, timespec ! 14]"
proof -
  obtain c0 c1 c2 c3 c4 c5 c6 c7 c8 c9 c10 c11 c12 c13 c14 where
    ts: "timespec = [c0, c1, c2, c3, c4, c5, c6, c7, c8, c9, c10, c11, c12, c13, c14]"
    using list15 [OF assms(1)] by blast
  show ?thesis
    using assms(2) unfolding ts by (simp add: FormatTime_def substr_def)
qed

theorem C9_FormatTime_witness:
  "length ''20160229T235901'' = 15 \<and> ''20160229T235901'' ! 8 = CHR ''T'' \<and>
   FormatTime ''20160229T235901'' = ''2016-02-29 23:59:01''"
  using C9_FormatTime_separators [of "''20160229T235901''"] by simp

subsection \<open>Joined streams: reading and writing to exhaustion\<close>

lemma reads_contentD:
  assumes "reads_content S c"
  obtains s' where "Read S s n = (Inr (take n (c s)), s')" and "c s' = drop n (c s)"
  using assms unfolding reads_content_def by (metis prod.collapse)

lemma readAll_single:
  assumes S: "reads_content S c" and n: "0 < n"
  shows "readAll (Read S) n s = Some (Inr (c s))"
proof (induction "length (c s)" arbitrary: s rule: less_induct)
  case less
  obtain s' where rd: "Read S s n = (Inr (take n (c s)), s')" and c': "c s' = drop n (c s)"
    using reads_contentD [OF S] by blast
  show ?case
  proof (cases "length (c s) < n")
    case True
    then show ?thesis by (subst readAll.simps) (simp add: rd)
  next
    case False
    then have "length (c s') < length (c s)" using n c' by simp
    then have "readAll (Read S) n s' = Some (Inr (c s'))" by (rule less)
    then show ?thesis using False by (subst readAll.simps) (simp add: rd c')
  qed
qed

lemma Read_exhausted:
  assumes "in_stream1Exhausted J" and "\<not> in_cancelled J"
    and "Read S2 (in_stream2 J) n = (Inr d, s2)"
  shows "JoinedObjectInputStreamBase_Read S1 S2 f J n = (Inr d, J\<lparr>in_stream2 := s2\<rparr>)"
  using assms by (simp add: JoinedObjectInputStreamBase_Read_def CheckCancelled_def)

lemma Read_full:
  assumes "\<not> in_stream1Exhausted J" and "\<not> in_cancelled J"
    and "Read S1 (in_stream1 J) n = (Inr d, s1)" and "\<not> length d < n"
  shows "JoinedObjectInputStreamBase_Read S1 S2 f J n = (Inr d, J\<lparr>in_stream1 := s1\<rparr>)"
  using assms by (simp add: JoinedObjectInputStreamBase_Read_def CheckCancelled_def)

lemma Read_short:
  assumes "\<not> in_stream1Exhausted J" and "\<not> in_cancelled J"
    and "Read S1 (in_stream1 J) n = (Inr d1, s1)" and "length d1 < n"
    and "Read S2 (in_stream2 J) (n - length d1) = (Inr d2, s2)"
  shows "JoinedObjectInputStreamBase_Read S1 S2 f J n =
           (Inr (d1 @ d2), J\<lparr>in_stream1 := s1, in_stream1Exhausted := True,
                              in_hook := f (in_hook J), in_stream2 := s2\<rparr>)"
  using assms by (simp add: JoinedObjectInputStreamBase_Read_def CheckCancelled_def Let_def)

lemma readAll_joined_exhausted:
  assumes S2: "reads_content S2 c2" and n: "0 < n"
  shows "in_stream1Exhausted J \<Longrightarrow> \<not> in_cancelled J \<Longrightarrow>
         readAll (JoinedObjectInputStreamBase_Read S1 S2 f) n J = Some (Inr (c2 (in_stream2 J)))"
proof (induction "length (c2 (in_stream2 J))" arbitrary: J rule: less_induct)
  case less
  let ?c = "c2 (in_stream2 J)"
  obtain s2 where rd: "Read S2 (in_stream2 J) n = (Inr (take n ?c), s2)"
    and c': "c2 s2 = drop n ?c"
    using reads_contentD [OF S2] by blast
  have step: "JoinedObjectInputStreamBase_Read S1 S2 f J n = (Inr (take n ?c), J\<lparr>in_stream2 := s2\<rparr>)"
    using less.prems rd by (rule Read_exhausted)
  show ?case
  proof (cases "length ?c < n")
    case True
    then show ?thesis by (subst readAll.simps) (simp add: step)
  next
    case False
    let ?J = "J\<lparr>in_stream2 := s2\<rparr>"
    have "length (c2 (in_stream2 ?J)) < length ?c" using False n c' by simp
    moreover have "in_stream1Exhausted ?J" "\<not> in_cancelled ?J" using less.prems by simp_all
    ultimately have "readAll (JoinedObjectInputStreamBase_Read S1 S2 f) n ?J = Some (Inr (c2 (in_stream2 ?J)))"
      by (rule less.hyps)
    then show ?thesis using False by (subst readAll.simps) (simp add: step c')
  qed
qed

lemma readAll_joined:
  assumes S1: "reads_content S1 c1" and S2: "reads_content S2 c2" and n: "0 < n"
  shows "\<not> in_stream1Exhausted J \<Longrightarrow> \<not> in_cancelled J \<Longrightarrow>
         readAll (JoinedObjectInputStreamBase_Read S1 S2 f) n J =
           Some (Inr (c1 (in_stream1 J) @ c2 (in_stream2 J)))"
proof (induction "length (c1 (in_stream1 J))" arbitrary: J rule: less_induct)
  case less
  let ?a = "c1 (in_stream1 J)" and ?b = "c2 (in_stream2 J)"
  obtain s1 where rd1: "Read S1 (in_stream1 J) n = (Inr (take n ?a), s1)"
    and c1': "c1 s1 = drop n ?a"
    using reads_contentD [OF S1] by blast
  show ?case
  proof (cases "length ?a < n")
    case short: True
    let ?k = "n - length ?a"
    obtain s2 where rd2: "Read S2 (in_stream2 J) ?k = (Inr (take ?k ?b), s2)"
      and c2': "c2 s2 = drop ?k ?b"
      using reads_contentD [OF S2] by blast
    let ?J = "J\<lparr>in_stream1 := s1, in_stream1Exhausted := True,
                  in_hook := f (in_hook J), in_stream2 := s2\<rparr>"
    have step: "JoinedObjectInputStreamBase_Read S1 S2 f J n = (Inr (?a @ take ?k ?b), ?J)"
      using Read_short [OF less.prems, of S1 n "take n ?a" s1 S2 "take ?k ?b" s2 f]
        rd1 rd2 short by simp
    show ?thesis
    proof (cases "length ?b < ?k")
      case True
      then have "take ?k ?b = ?b" and "length (?a @ ?b) < n" using short by simp_all
      then show ?thesis by (subst readAll.simps) (simp add: step)
    next
      case False
      then have len: "\<not> length (?a @ take ?k ?b) < n" using short by simp
      have "readAll (JoinedObjectInputStreamBase_Read S1 S2 f) n ?J = Some (Inr (c2 (in_stream2 ?J)))"
        using less.prems by (intro readAll_joined_exhausted [OF S2 n]) simp_all
      then show ?thesis using len
        by (subst readAll.simps) (simp add: step c2' del: length_append)
    qed
  next
    case False
    let ?J = "J\<lparr>in_stream1 := s1\<rparr>"
    have step: "JoinedObjectInputStreamBase_Read S1 S2 f J n = (Inr (take n ?a), ?J)"
      using less.prems rd1 False by (intro Read_full) simp_all
    have "length (c1 (in_stream1 ?J)) < length ?a" using False n c1' by simp
    moreover have "\<not> in_stream1Exhausted ?J" "\<not> in_cancelled ?J" using less.prems by simp_all
    ultimately have "readAll (JoinedObjectInputStreamBase_Read S1 S2 f) n ?J =
        Some (Inr (c1 (in_stream1 ?J) @ c2 (in_stream2 ?J)))"
      by (rule less.hyps)
    then show ?thesis using False
      by (subst readAll.simps) (simp add: step c1' flip: append_assoc)
  qed
qed

lemma writes_roomD:
  assumes "writes_room S w r"
  obtains s' where "Write S s d = (Inr (length (accept (r s) d)), s')"
    and "w s' = w s @ accept (r s) d" and "r s' = room_after (r s) (length d)"
  using assms unfolding writes_room_def by (metis prod.collapse)

lemma accept_simps:
  "accept r [] = []" "accept (Some 0) d = []" "length (accept r d) \<le> length d"
  "room_after r 0 = r" "room_after (Some 0) k = Some 0"
  by (simp_all add: accept_def room_after_def split: option.splits)

lemma accept_append_full:
  "length (accept r c) = length c \<Longrightarrow> accept r (c @ D) = c @ accept (room_after r (length c)) D"
  by (auto simp: accept_def room_after_def min_def split: option.splits if_splits)

lemma accept_append_short:
  "length (accept r c) < length c \<Longrightarrow> accept r (c @ D) = accept r c"
  "length (accept r c) < length c \<Longrightarrow> room_after r (length c) = Some 0"
  by (auto simp: accept_def room_after_def min_def split: option.splits if_splits)

lemma accept_full_eq: "length (accept r c) = length c \<Longrightarrow> accept r c = c"
  by (auto simp: accept_def min_def split: option.splits if_splits)

lemma Write_call:
  fixes V W wv ww rv rw J d g
  assumes V: "writes_room V wv rv" and W: "writes_room W ww rw" and nc: "\<not> out_cancelled J"
  defines "xa \<equiv> accept (out_room1 rv J) d"
  defines "xb \<equiv> accept (rw (out_stream2 J)) (drop (length xa) d)"
  defines "K \<equiv> snd (JoinedObjectOutputStreamBase_Write V W g J d)"
  shows "fst (JoinedObjectOutputStreamBase_Write V W g J d) = Inr (length xa + length xb)"
    and "wv (out_stream1 K) = wv (out_stream1 J) @ xa"
    and "ww (out_stream2 K) = ww (out_stream2 J) @ xb"
    and "\<not> out_cancelled K"
    and "out_room1 rv K = room_after (out_room1 rv J) (length d)"
    and "rw (out_stream2 K) = room_after (rw (out_stream2 J)) (length d - length xa)"
proof -
  have "fst (JoinedObjectOutputStreamBase_Write V W g J d) = Inr (length xa + length xb) \<and>
    wv (out_stream1 K) = wv (out_stream1 J) @ xa \<and>
    ww (out_stream2 K) = ww (out_stream2 J) @ xb \<and>
    \<not> out_cancelled K \<and>
    out_room1 rv K = room_after (out_room1 rv J) (length d) \<and>
    rw (out_stream2 K) = room_after (rw (out_stream2 J)) (length d - length xa)"
  proof (cases "out_stream1Exhausted J")
    case True
    obtain s2 where wr: "Write W (out_stream2 J) d = (Inr (length (accept (rw (out_stream2 J)) d)), s2)"
      and w: "ww s2 = ww (out_stream2 J) @ accept (rw (out_stream2 J)) d"
      and r: "rw s2 = room_after (rw (out_stream2 J)) (length d)"
      using writes_roomD [OF W] by blast
    have "JoinedObjectOutputStreamBase_Write V W g J d =
        (Inr (length (accept (rw (out_stream2 J)) d)), J\<lparr>out_stream2 := s2\<rparr>)"
      using True nc wr by (simp add: JoinedObjectOutputStreamBase_Write_def CheckCancelled_def)
    then show ?thesis
      using True nc w r by (simp add: K_def xa_def xb_def out_room1_def accept_simps)
  next
    case False
    let ?r1 = "rv (out_stream1 J)"
    obtain s1 where wr1: "Write V (out_stream1 J) d = (Inr (length (accept ?r1 d)), s1)"
      and w1: "wv s1 = wv (out_stream1 J) @ accept ?r1 d"
      and r1: "rv s1 = room_after ?r1 (length d)"
      using writes_roomD [OF V] by blast
    have xa: "xa = accept ?r1 d" using False by (simp add: xa_def out_room1_def)
    show ?thesis
    proof (cases "length (accept ?r1 d) < length d")
      case short: True
      let ?rest = "drop (length (accept ?r1 d)) d"
      obtain s2 where wr2: "Write W (out_stream2 J) ?rest =
          (Inr (length (accept (rw (out_stream2 J)) ?rest)), s2)"
        and w2: "ww s2 = ww (out_stream2 J) @ accept (rw (out_stream2 J)) ?rest"
        and r2: "rw s2 = room_after (rw (out_stream2 J)) (length ?rest)"
        using writes_roomD [OF W] by blast
      have "JoinedObjectOutputStreamBase_Write V W g J d =
          (Inr (length (accept ?r1 d) + length (accept (rw (out_stream2 J)) ?rest)),
           J\<lparr>out_stream1 := s1, out_stream1Exhausted := True,
              out_hook := g (out_hook J), out_stream2 := s2\<rparr>)"
        using False nc wr1 wr2 short
        by (simp add: JoinedObjectOutputStreamBase_Write_def CheckCancelled_def Let_def)
      then show ?thesis
        using False nc w1 w2 r2 short accept_append_short(2) [OF short]
        by (simp add: K_def xa xb_def out_room1_def)
    next
      case full: False
      then have len: "length (accept ?r1 d) = length d"
        using accept_simps(3) [of ?r1 d] by simp
      have "JoinedObjectOutputStreamBase_Write V W g J d =
          (Inr (length (accept ?r1 d)), J\<lparr>out_stream1 := s1\<rparr>)"
        using False nc wr1 full
        by (simp add: JoinedObjectOutputStreamBase_Write_def CheckCancelled_def)
      then show ?thesis
        using False nc w1 r1 len
        by (simp add: K_def xa xb_def out_room1_def accept_simps)
    qed
  qed
  then show "fst (JoinedObjectOutputStreamBase_Write V W g J d) = Inr (length xa + length xb)"
    and "wv (out_stream1 K) = wv (out_stream1 J) @ xa"
    and "ww (out_stream2 K) = ww (out_stream2 J) @ xb"
    and "\<not> out_cancelled K"
    and "out_room1 rv K = room_after (out_room1 rv J) (length d)"
    and "rw (out_stream2 K) = room_after (rw (out_stream2 J)) (length d - length xa)"
    by simp_all
qed

lemma writeAll_joined_room:
  fixes V W wv ww rv rw g
  assumes V: "writes_room V wv rv" and W: "writes_room W ww rw"
  shows "\<not> out_cancelled J \<Longrightarrow>
    fst (writeAll (JoinedObjectOutputStreamBase_Write V W g) J cs) =
      Inr (length (accept (out_room1 rv J) (concat cs)) +
           length (accept (rw (out_stream2 J))
                     (drop (length (accept (out_room1 rv J) (concat cs))) (concat cs)))) \<and>
    wv (out_stream1 (snd (writeAll (JoinedObjectOutputStreamBase_Write V W g) J cs))) =
      wv (out_stream1 J) @ accept (out_room1 rv J) (concat cs) \<and>
    ww (out_stream2 (snd (writeAll (JoinedObjectOutputStreamBase_Write V W g) J cs))) =
      ww (out_stream2 J) @
      accept (rw (out_stream2 J))
        (drop (length (accept (out_room1 rv J) (concat cs))) (concat cs))"
proof (induction cs arbitrary: J)
  case Nil
  then show ?case by (simp add: accept_simps)
next
  case (Cons c cs)
  let ?JW = "JoinedObjectOutputStreamBase_Write V W g"
  let ?D = "concat cs"
  let ?ra = "out_room1 rv J" and ?rb = "rw (out_stream2 J)"
  let ?xa = "accept ?ra c"
  let ?xb = "accept ?rb (drop (length ?xa) c)"
  note call0 = Write_call [OF V W Cons.prems, where d = c and g = g]
  obtain K where res: "?JW J c = (Inr (length ?xa + length ?xb), K)"
    using call0(1) by (cases "?JW J c") simp
  then have K: "snd (?JW J c) = K" by simp
  note call = call0 [unfolded K]
  have la: "length ?xa \<le> length c" by (rule accept_simps)
  have lb: "length ?xb \<le> length c - length ?xa"
    using accept_simps(3) [of ?rb "drop (length ?xa) c"] by simp
  show ?case
  proof (cases "length ?xa + length ?xb < length c")
    case short: True
    have wa: "writeAll ?JW J (c # cs) = (Inr (length ?xa + length ?xb), K)"
      using short by (subst writeAll.simps) (simp add: res)
    have a: "accept ?ra (c @ ?D) = ?xa \<and>
             accept ?rb (drop (length ?xa) (c @ ?D)) = ?xb"
    proof (cases "length ?xa < length c")
      case True
      then have 1: "accept ?ra (c @ ?D) = ?xa" by (rule accept_append_short)
      have "length ?xb < length (drop (length ?xa) c)" using short by simp
      then have "accept ?rb (drop (length ?xa) c @ ?D) = ?xb" by (rule accept_append_short)
      then show ?thesis using 1 True by simp
    next
      case False
      then have "length ?xa = length c" using la by simp
      then have "?xb = []" by (simp add: accept_simps)
      then show ?thesis using short False by simp
    qed
    show ?thesis unfolding wa using a call(2,3) by simp
  next
    case full: False
    then have tot: "length ?xa + length ?xb = length c" using la lb by simp
    let ?ra' = "out_room1 rv K" and ?rb' = "rw (out_stream2 K)"
    let ?ya = "accept ?ra' ?D"
    let ?yb = "accept ?rb' (drop (length ?ya) ?D)"
    note IH = Cons.IH [OF call(4)]
    obtain t K2 where rest: "writeAll ?JW K cs = (Inr t, K2)"
      and t: "t = length ?ya + length ?yb"
      using IH by (cases "writeAll ?JW K cs") simp
    have K2: "wv (out_stream1 K2) = wv (out_stream1 K) @ ?ya"
      "ww (out_stream2 K2) = ww (out_stream2 K) @ ?yb"
      using IH rest by simp_all
    have wa: "writeAll ?JW J (c # cs) = (Inr (length ?xa + length ?xb + t), K2)"
      using full by (subst writeAll.simps) (simp add: res rest)
    have a: "accept ?ra (c @ ?D) = ?xa @ ?ya \<and>
             accept ?rb (drop (length (?xa @ ?ya)) (c @ ?D)) = ?xb @ ?yb"
    proof (cases "length ?xa < length c")
      case True
      then have 1: "accept ?ra (c @ ?D) = ?xa" by (rule accept_append_short)
      have ra': "?ra' = Some 0" using call(5) accept_append_short(2) [OF True] by simp
      then have ya: "?ya = []" by (simp add: accept_simps)
      have "length ?xb = length (drop (length ?xa) c)" using tot by simp
      then have "accept ?rb (drop (length ?xa) c @ ?D) =
          drop (length ?xa) c @ accept (room_after ?rb (length (drop (length ?xa) c))) ?D"
        and "?xb = drop (length ?xa) c"
        by (rule accept_append_full, rule accept_full_eq)
      then show ?thesis using 1 ya True call(6) by simp
    next
      case False
      then have len: "length ?xa = length c" using la by simp
      then have xb: "?xb = []" by (simp add: accept_simps)
      have xa: "?xa = c" using len by (rule accept_full_eq)
      have 1: "accept ?ra (c @ ?D) = c @ accept (room_after ?ra (length c)) ?D"
        using len by (rule accept_append_full)
      have "?rb' = ?rb" using call(6) len by (simp add: accept_simps)
      then show ?thesis using 1 xa xb call(5) len by simp
    qed
    show ?thesis unfolding wa using a call(2,3) K2 t by simp
  qed
qed

subsection \<open>Joined streams: the claims\<close>

lemma ByteArray_reads_content:
  "reads_content ByteArrayObjectInputStream (\<lambda>(data, offset). drop offset data)"
  by (auto simp: reads_content_def ByteArrayObjectInputStream_def min_def add.commute)

lemma ByteArray_writes_room:
  "writes_room ByteArrayObjectOutputStream (\<lambda>buf. buf) (\<lambda>buf. None)"
  by (simp add: writes_room_def ByteArrayObjectOutputStream_def accept_def room_after_def)

lemma FixedSize_writes_room:
  "writes_room FixedSizeByteArrayObjectOutputStream fst
     (\<lambda>(buf, capacity). Some (capacity - length buf))"
  by (auto simp: writes_room_def FixedSizeByteArrayObjectOutputStream_def Let_def accept_def
      room_after_def min_def)

lemma Read_next_bytes:
  assumes A: "reads_content A ca" and B: "reads_content B cb"
    and J: "\<not> in_cancelled J"
  shows "fst (JoinedObjectInputStreamBase_Read A B f J n) =
           Inr (take n ((if in_stream1Exhausted J then [] else ca (in_stream1 J)) @
                        cb (in_stream2 J)))"
proof (cases "in_stream1Exhausted J")
  case True
  obtain s2 where "Read B (in_stream2 J) n = (Inr (take n (cb (in_stream2 J))), s2)"
    using reads_contentD [OF B] by blast
  then show ?thesis using True J Read_exhausted [of J B n _ s2 A f] by simp
next
  case False
  let ?a = "ca (in_stream1 J)" and ?b = "cb (in_stream2 J)"
  obtain s1 where rd1: "Read A (in_stream1 J) n = (Inr (take n ?a), s1)"
    using reads_contentD [OF A] by blast
  show ?thesis
  proof (cases "length ?a < n")
    case short: True
    obtain s2 where rd2: "Read B (in_stream2 J) (n - length ?a) = (Inr (take (n - length ?a) ?b), s2)"
      using reads_contentD [OF B] by blast
    have "fst (JoinedObjectInputStreamBase_Read A B f J n) = Inr (?a @ take (n - length ?a) ?b)"
      using Read_short [OF False J, of A n "take n ?a" s1 B "take (n - length ?a) ?b" s2 f]
        rd1 rd2 short by simp
    then show ?thesis using False short by simp
  next
    case full: False
    have "fst (JoinedObjectInputStreamBase_Read A B f J n) = Inr (take n ?a)"
      using Read_full [OF False J, of A n "take n ?a" s1 B f] rd1 full by simp
    then show ?thesis using False full by simp
  qed
qed

text \<open>C1: let \<open>A\<close>, \<open>B\<close> be input streams that deliver their contents \<open>ca a\<close>, \<open>cb b\<close> as the
  stream contract says, and \<open>n > 0\<close> the chunk size. Reading each to exhaustion yields its
  content, and reading the joined stream built from them to exhaustion yields the
  concatenation \<open>ca a @ cb b\<close>. Call by call: on a joined stream \<open>J\<close> that is not cancelled, a
  \<open>Read\<close> of \<open>n\<close> bytes returns the next \<open>n\<close> bytes of what is left of the first stream
  followed by the second (so the call in which the first stream returns short is completed
  from the second), and of the second stream alone once the first is exhausted.
  Analogously for \<open>Write\<close>: let \<open>V\<close>, \<open>W\<close> be output streams that accept what fits into their
  room (\<open>rv\<close>, \<open>rw\<close>) and append it to their logs (\<open>wv\<close>, \<open>ww\<close>), as the stream contract says.
  Offering chunks to the joined stream built from \<open>v\<close> and \<open>w\<close> until a short write appends
  to the first stream the bytes \<open>xv\<close> of the concatenated chunks that fit into it, and to the
  second stream the bytes \<open>xw\<close> that follow them, as far as these fit; the result is the
  number of bytes appended to both. Call by call: on a joined stream \<open>K\<close> that is not
  cancelled, a \<open>Write\<close> of \<open>d\<close> appends to the first stream the bytes of \<open>d\<close> that fit into it
  (none once the first stream is exhausted) and, in the same call, the bytes that follow
  them to the second stream, as far as these fit, and returns the number of bytes appended
  to both.\<close>

theorem C1_joined_concat:
  assumes "reads_content A ca" and "reads_content B cb" and "0 < n"
    and "writes_room V wv rv" and "writes_room W ww rw"
  shows "readAll (Read A) n a = Some (Inr (ca a)) \<and>
         readAll (Read B) n b = Some (Inr (cb b)) \<and>
         readAll (JoinedObjectInputStreamBase_Read A B f) n (JoinedObjectInputStream_new A B a b h) =
           Some (Inr (ca a @ cb b)) \<and>
         (\<not> in_cancelled J \<longrightarrow>
            fst (JoinedObjectInputStreamBase_Read A B f J m) =
              Inr (take m ((if in_stream1Exhausted J then [] else ca (in_stream1 J)) @
                           cb (in_stream2 J)))) \<and>
         (let data = concat chunks;
              xv = accept (rv v) data;
              xw = accept (rw w) (drop (length xv) data);
              res = writeAll (JoinedObjectOutputStreamBase_Write V W g)
                      (JoinedObjectOutputStream_new v w k) chunks
          in fst res = Inr (length xv + length xw) \<and>
             wv (out_stream1 (snd res)) = wv v @ xv \<and>
             ww (out_stream2 (snd res)) = ww w @ xw) \<and>
         (\<not> out_cancelled K \<longrightarrow>
            (let xv = accept (out_room1 rv K) d;
                 xw = accept (rw (out_stream2 K)) (drop (length xv) d);
                 res = JoinedObjectOutputStreamBase_Write V W g K d
             in fst res = Inr (length xv + length xw) \<and>
                wv (out_stream1 (snd res)) = wv (out_stream1 K) @ xv \<and>
                ww (out_stream2 (snd res)) = ww (out_stream2 K) @ xw))"
proof -
  let ?J = "JoinedObjectInputStream_new A B a b h"
  have "readAll (JoinedObjectInputStreamBase_Read A B f) n ?J =
      Some (Inr (ca (in_stream1 ?J) @ cb (in_stream2 ?J)))"
    using assms(1-3) by (rule readAll_joined) (simp_all add: JoinedObjectInputStream_new_def)
  then have rd: "readAll (JoinedObjectInputStreamBase_Read A B f) n ?J = Some (Inr (ca a @ cb b))"
    by (simp add: JoinedObjectInputStream_new_def)
  let ?K = "JoinedObjectOutputStream_new v w k"
  have K: "\<not> out_cancelled ?K" "out_room1 rv ?K = rv v" "out_stream1 ?K = v" "out_stream2 ?K = w"
    by (simp_all add: JoinedObjectOutputStream_new_def out_room1_def)
  have wr: "let data = concat chunks;
              xv = accept (rv v) data;
              xw = accept (rw w) (drop (length xv) data);
              res = writeAll (JoinedObjectOutputStreamBase_Write V W g) ?K chunks
          in fst res = Inr (length xv + length xw) \<and>
             wv (out_stream1 (snd res)) = wv v @ xv \<and>
             ww (out_stream2 (snd res)) = ww w @ xw"
    using writeAll_joined_room [OF assms(4,5) K(1), where g = g and cs = chunks] unfolding K Let_def .
  have call: "\<not> out_cancelled K \<longrightarrow>
            (let xv = accept (out_room1 rv K) d;
                 xw = accept (rw (out_stream2 K)) (drop (length xv) d);
                 res = JoinedObjectOutputStreamBase_Write V W g K d
             in fst res = Inr (length xv + length xw) \<and>
                wv (out_stream1 (snd res)) = wv (out_stream1 K) @ xv \<and>
                ww (out_stream2 (snd res)) = ww (out_stream2 K) @ xw)"
    unfolding Let_def using Write_call(1-3) [OF assms(4,5), where J = K and d = d and g = g] by blast
  show ?thesis
    using readAll_single [OF assms(1,3)] readAll_single [OF assms(2,3)] rd wr call
      Read_next_bytes [OF assms(1,2), of J f m]
    by blast
qed

theorem C1_joined_concat_witness:
  "reads_content ByteArrayObjectInputStream (\<lambda>(data, offset). drop offset data) \<and>
   0 < (2::nat) \<and>
   writes_room FixedSizeByteArrayObjectOutputStream fst
     (\<lambda>(buf, capacity). Some (capacity - length buf)) \<and>
   writes_room ByteArrayObjectOutputStream (\<lambda>buf. buf) (\<lambda>buf. None) \<and>
   readAll (JoinedObjectInputStreamBase_Read ByteArrayObjectInputStream ByteArrayObjectInputStream Suc) 2
     (JoinedObjectInputStream_new ByteArrayObjectInputStream ByteArrayObjectInputStream
        ([1, 2, 3], 0) ([4, 5], 0) (0::nat)) = Some (Inr [1, 2, 3, 4, 5]) \<and>
   fst (JoinedObjectInputStreamBase_Read ByteArrayObjectInputStream ByteArrayObjectInputStream Suc
     (JoinedObjectInputStream_new ByteArrayObjectInputStream ByteArrayObjectInputStream
        ([1, 2, 3], 0) ([4, 5], 0) (0::nat)) 4) = Inr [1, 2, 3, 4] \<and>
   fst (writeAll (JoinedObjectOutputStreamBase_Write FixedSizeByteArrayObjectOutputStream
                    ByteArrayObjectOutputStream Suc)
          (JoinedObjectOutputStream_new ([], 3) [] (0::nat)) [[1, 2], [3, 4], [5]]) = Inr 5 \<and>
   fst (out_stream1
          (snd (writeAll (JoinedObjectOutputStreamBase_Write FixedSizeByteArrayObjectOutputStream
                            ByteArrayObjectOutputStream Suc)
                  (JoinedObjectOutputStream_new ([], 3) [] (0::nat)) [[1, 2], [3, 4], [5]]))) =
     [1, 2, 3] \<and>
   out_stream2
     (snd (writeAll (JoinedObjectOutputStreamBase_Write FixedSizeByteArrayObjectOutputStream
                       ByteArrayObjectOutputStream Suc)
             (JoinedObjectOutputStream_new ([], 3) [] (0::nat)) [[1, 2], [3, 4], [5]])) = [4, 5] \<and>
   fst (JoinedObjectOutputStreamBase_Write FixedSizeByteArrayObjectOutputStream
          ByteArrayObjectOutputStream Suc
          (JoinedObjectOutputStream_new ([], 3) [] (0::nat)) [1, 2, 3, 4]) = Inr 4 \<and>
   out_stream2
     (snd (JoinedObjectOutputStreamBase_Write FixedSizeByteArrayObjectOutputStream
             ByteArrayObjectOutputStream Suc
             (JoinedObjectOutputStream_new ([], 3) [] (0::nat)) [1, 2, 3, 4])) = [4]"
proof -
  let ?J0 = "JoinedObjectInputStream_new ByteArrayObjectInputStream ByteArrayObjectInputStream
        ([1, 2, 3], 0) ([4, 5], 0) (0::nat)"
  let ?K0 = "JoinedObjectOutputStream_new ([]::u8 list, 3::nat) ([]::u8 list) (0::nat)"
  have J0: "\<not> in_cancelled ?J0" "\<not> in_stream1Exhausted ?J0"
    "in_stream1 ?J0 = ([1, 2, 3], 0)" "in_stream2 ?J0 = ([4, 5], 0)"
    by (simp_all add: JoinedObjectInputStream_new_def)
  have K0: "\<not> out_cancelled ?K0" "out_room1 (\<lambda>(buf, capacity). Some (capacity - length buf)) ?K0 = Some 3"
    "out_stream1 ?K0 = ([], 3)" "out_stream2 ?K0 = []"
    by (simp_all add: JoinedObjectOutputStream_new_def out_room1_def)
  note C = C1_joined_concat [OF ByteArray_reads_content ByteArray_reads_content _
      FixedSize_writes_room ByteArray_writes_room,
      where n = 2 and a = "([1, 2, 3], 0)" and b = "([4, 5], 0)" and f = Suc and h = "0::nat"
        and J = ?J0 and m = 4 and g = Suc and v = "([], 3)" and w = "[]" and k = "0::nat"
        and chunks = "[[1, 2], [3, 4], [5]]" and K = ?K0 and d = "[1, 2, 3, 4]"]
  show ?thesis
    using C J0 K0 ByteArray_reads_content FixedSize_writes_room ByteArray_writes_room
    by (simp add: Let_def accept_def del: writeAll.simps)
qed

text \<open>C2: \<open>GetSize\<close> of a joined input stream built from \<open>a\<close> and \<open>b\<close> is
  \<open>GetSize a + GetSize b\<close>, the sum being the C++ sum of two 64-bit unsigned values (it is
  the sum of the two numbers modulo \<open>2^64\<close>); the value does not change when the stream is
  read.\<close>

theorem C2_joined_size:
  "JoinedObjectInputStream_GetSize (JoinedObjectInputStream_new S1 S2 s1 s2 h) =
     GetSize S1 s1 + GetSize S2 s2 \<and>
   unat (JoinedObjectInputStream_GetSize (JoinedObjectInputStream_new S1 S2 s1 s2 h)) =
     (unat (GetSize S1 s1) + unat (GetSize S2 s2)) mod 2 ^ 64 \<and>
   JoinedObjectInputStream_GetSize (snd (JoinedObjectInputStreamBase_Read S1 S2 f J n)) =
     JoinedObjectInputStream_GetSize J"
  by (auto simp: JoinedObjectInputStream_GetSize_def JoinedObjectInputStream_new_def
      unat_word_ariths JoinedObjectInputStreamBase_Read_def CheckCancelled_def Let_def
      split: prod.splits sum.splits)

text \<open>C3: once the cancellation flag of a joined stream is set, whatever the state of the
  stream and before any I/O, the next \<open>Read\<close> (\<open>Write\<close>) fails with \<open>Cancelled\<close> and leaves
  the object as it was; in particular both underlying streams are in the state they had
  before \<open>Cancel\<close>: no byte is transferred. This holds for all underlying streams \<open>S1\<close>, \<open>S2\<close>,
  since the flag is checked before either is called.\<close>

theorem C3_cancelled_before_io:
  "JoinedObjectInputStreamBase_Read S1 S2 f (in_Cancel J) n =
     (Inl OperationCancelled, in_Cancel J) \<and>
   in_stream1 (snd (JoinedObjectInputStreamBase_Read S1 S2 f (in_Cancel J) n)) = in_stream1 J \<and>
   in_stream2 (snd (JoinedObjectInputStreamBase_Read S1 S2 f (in_Cancel J) n)) = in_stream2 J \<and>
   JoinedObjectOutputStreamBase_Write T1 T2 g (out_Cancel K) d =
     (Inl OperationCancelled, out_Cancel K) \<and>
   out_stream1 (snd (JoinedObjectOutputStreamBase_Write T1 T2 g (out_Cancel K) d)) =
     out_stream1 K \<and>
   out_stream2 (snd (JoinedObjectOutputStreamBase_Write T1 T2 g (out_Cancel K) d)) =
     out_stream2 K"
  by (simp add: JoinedObjectInputStreamBase_Read_def JoinedObjectOutputStreamBase_Write_def
      CheckCancelled_def in_Cancel_def out_Cancel_def)

subsection \<open>The exhaustion flag\<close>

lemma in_exhausted_step:
  assumes "in_stream1Exhausted J"
  shows "in_stream1Exhausted (snd (JoinedObjectInputStreamBase_Read S1 S2 f J n))"
    and "in_stream1 (snd (JoinedObjectInputStreamBase_Read S1 S2 f J n)) = in_stream1 J"
    and "in_hook (snd (JoinedObjectInputStreamBase_Read S1 S2 f J n)) = in_hook J"
    and "JoinedObjectInputStreamBase_Read S1 S2 f J n = JoinedObjectInputStreamBase_Read S1' S2 f' J n"
  using assms
  by (simp_all add: JoinedObjectInputStreamBase_Read_def CheckCancelled_def split: prod.splits sum.splits)

lemma in_fresh_step:
  assumes "\<not> in_stream1Exhausted J"
  shows "in_stream1Exhausted (snd (JoinedObjectInputStreamBase_Read S1 S2 f J n)) \<longleftrightarrow>
           \<not> in_cancelled J \<and> (\<exists>d s. Read S1 (in_stream1 J) n = (Inr d, s) \<and> length d < n)"
    and "in_hook (snd (JoinedObjectInputStreamBase_Read S1 S2 f J n)) =
           (if in_stream1Exhausted (snd (JoinedObjectInputStreamBase_Read S1 S2 f J n)) then f (in_hook J)
            else in_hook J)"
  using assms
  by (auto simp: JoinedObjectInputStreamBase_Read_def CheckCancelled_def Let_def split: prod.splits sum.splits)

lemma in_calls_exhausted:
  "in_stream1Exhausted J \<Longrightarrow>
   in_stream1Exhausted (in_calls S1 S2 f J cs) \<and>
   in_stream1 (in_calls S1 S2 f J cs) = in_stream1 J \<and>
   in_hook (in_calls S1 S2 f J cs) = in_hook J"
proof (induction cs arbitrary: J)
  case Nil
  then show ?case by simp
next
  case (Cons c cs)
  show ?case
  proof (cases c)
    case (Call n)
    let ?J = "snd (JoinedObjectInputStreamBase_Read S1 S2 f J n)"
    have "in_stream1Exhausted ?J" "in_stream1 ?J = in_stream1 J" "in_hook ?J = in_hook J"
      using in_exhausted_step(1-3) [OF Cons.prems] by blast+
    then show ?thesis using Cons.IH [of ?J] Call by simp
  next
    case Cancel
    have "in_stream1Exhausted (in_Cancel J)" using Cons.prems by (simp add: in_Cancel_def)
    then show ?thesis using Cons.IH [of "in_Cancel J"] Cancel by (simp add: in_Cancel_def)
  qed
qed

lemma in_calls_hook:
  "in_hook J = (if in_stream1Exhausted J then f h else h) \<Longrightarrow>
   in_hook (in_calls S1 S2 f J cs) = (if in_stream1Exhausted (in_calls S1 S2 f J cs) then f h else h)"
proof (induction cs arbitrary: J)
  case Nil
  then show ?case by simp
next
  case (Cons c cs)
  show ?case
  proof (cases c)
    case (Call n)
    let ?J = "snd (JoinedObjectInputStreamBase_Read S1 S2 f J n)"
    have "in_hook ?J = (if in_stream1Exhausted ?J then f h else h)"
    proof (cases "in_stream1Exhausted J")
      case True
      then show ?thesis using in_exhausted_step(1,3) [OF True, of S1 S2 f n] Cons.prems by simp
    next
      case False
      then show ?thesis using in_fresh_step(2) [OF False, of S1 S2 f n] Cons.prems by simp
    qed
    then show ?thesis using Cons.IH [of ?J] Call by simp
  next
    case Cancel
    have "in_hook (in_Cancel J) = (if in_stream1Exhausted (in_Cancel J) then f h else h)"
      using Cons.prems by (simp add: in_Cancel_def)
    then show ?thesis using Cons.IH [of "in_Cancel J"] Cancel by simp
  qed
qed

lemma out_exhausted_step:
  assumes "out_stream1Exhausted J"
  shows "out_stream1Exhausted (snd (JoinedObjectOutputStreamBase_Write S1 S2 f J d))"
    and "out_stream1 (snd (JoinedObjectOutputStreamBase_Write S1 S2 f J d)) = out_stream1 J"
    and "out_hook (snd (JoinedObjectOutputStreamBase_Write S1 S2 f J d)) = out_hook J"
    and "JoinedObjectOutputStreamBase_Write S1 S2 f J d = JoinedObjectOutputStreamBase_Write S1' S2 f' J d"
  using assms
  by (simp_all add: JoinedObjectOutputStreamBase_Write_def CheckCancelled_def split: prod.splits sum.splits)

lemma out_fresh_step:
  assumes "\<not> out_stream1Exhausted J"
  shows "out_stream1Exhausted (snd (JoinedObjectOutputStreamBase_Write S1 S2 f J d)) \<longleftrightarrow>
           \<not> out_cancelled J \<and> (\<exists>r s. Write S1 (out_stream1 J) d = (Inr r, s) \<and> r < length d)"
    and "out_hook (snd (JoinedObjectOutputStreamBase_Write S1 S2 f J d)) =
           (if out_stream1Exhausted (snd (JoinedObjectOutputStreamBase_Write S1 S2 f J d)) then f (out_hook J)
            else out_hook J)"
  using assms
  by (auto simp: JoinedObjectOutputStreamBase_Write_def CheckCancelled_def Let_def split: prod.splits sum.splits)

lemma out_calls_exhausted:
  "out_stream1Exhausted J \<Longrightarrow>
   out_stream1Exhausted (out_calls S1 S2 f J cs) \<and>
   out_stream1 (out_calls S1 S2 f J cs) = out_stream1 J \<and>
   out_hook (out_calls S1 S2 f J cs) = out_hook J"
proof (induction cs arbitrary: J)
  case Nil
  then show ?case by simp
next
  case (Cons c cs)
  show ?case
  proof (cases c)
    case (Call d)
    let ?J = "snd (JoinedObjectOutputStreamBase_Write S1 S2 f J d)"
    have "out_stream1Exhausted ?J" "out_stream1 ?J = out_stream1 J" "out_hook ?J = out_hook J"
      using out_exhausted_step(1-3) [OF Cons.prems] by blast+
    then show ?thesis using Cons.IH [of ?J] Call by simp
  next
    case Cancel
    have "out_stream1Exhausted (out_Cancel J)" using Cons.prems by (simp add: out_Cancel_def)
    then show ?thesis using Cons.IH [of "out_Cancel J"] Cancel by (simp add: out_Cancel_def)
  qed
qed

lemma out_calls_hook:
  "out_hook J = (if out_stream1Exhausted J then f h else h) \<Longrightarrow>
   out_hook (out_calls S1 S2 f J cs) = (if out_stream1Exhausted (out_calls S1 S2 f J cs) then f h else h)"
proof (induction cs arbitrary: J)
  case Nil
  then show ?case by simp
next
  case (Cons c cs)
  show ?case
  proof (cases c)
    case (Call d)
    let ?J = "snd (JoinedObjectOutputStreamBase_Write S1 S2 f J d)"
    have "out_hook ?J = (if out_stream1Exhausted ?J then f h else h)"
    proof (cases "out_stream1Exhausted J")
      case True
      then show ?thesis using out_exhausted_step(1,3) [OF True, of S1 S2 f d] Cons.prems by simp
    next
      case False
      then show ?thesis using out_fresh_step(2) [OF False, of S1 S2 f d] Cons.prems by simp
    qed
    then show ?thesis using Cons.IH [of ?J] Call by simp
  next
    case Cancel
    have "out_hook (out_Cancel J) = (if out_stream1Exhausted (out_Cancel J) then f h else h)"
      using Cons.prems by (simp add: out_Cancel_def)
    then show ?thesis using Cons.IH [of "out_Cancel J"] Cancel by simp
  qed
qed

text \<open>C10: for a joined input stream (and likewise a joined output stream):
  the flag is false after construction; after any sequence of calls the hook
  \<open>OnStream1Exhausted\<close> has run exactly once if the flag is set and not at all otherwise;
  a call on a stream \<open>Jf\<close> whose flag is clear sets the flag exactly when it is not cancelled
  and the first stream returns short, and runs the hook in exactly that case; on a stream
  \<open>Je\<close> whose flag is set, every later sequence of calls leaves the flag set, does not run the
  hook again and does not touch the first stream, and a call's outcome is the same whatever
  the first stream (and the hook) would do.\<close>

theorem C10_exhaustion_flag:
  "\<not> in_stream1Exhausted (JoinedObjectInputStream_new S1 S2 s1 s2 h) \<and>
   in_hook (in_calls S1 S2 f (JoinedObjectInputStream_new S1 S2 s1 s2 h) cs) =
     (if in_stream1Exhausted (in_calls S1 S2 f (JoinedObjectInputStream_new S1 S2 s1 s2 h) cs)
      then f h else h) \<and>
   (\<not> in_stream1Exhausted Jf \<longrightarrow>
      (in_stream1Exhausted (snd (JoinedObjectInputStreamBase_Read S1 S2 f Jf n)) \<longleftrightarrow>
         \<not> in_cancelled Jf \<and> (\<exists>d s. Read S1 (in_stream1 Jf) n = (Inr d, s) \<and> length d < n)) \<and>
      in_hook (snd (JoinedObjectInputStreamBase_Read S1 S2 f Jf n)) =
        (if in_stream1Exhausted (snd (JoinedObjectInputStreamBase_Read S1 S2 f Jf n)) then f (in_hook Jf)
         else in_hook Jf)) \<and>
   (in_stream1Exhausted Je \<longrightarrow>
      in_stream1Exhausted (in_calls S1 S2 f Je cs') \<and>
      in_stream1 (in_calls S1 S2 f Je cs') = in_stream1 Je \<and>
      in_hook (in_calls S1 S2 f Je cs') = in_hook Je \<and>
      JoinedObjectInputStreamBase_Read S1 S2 f Je n = JoinedObjectInputStreamBase_Read S1' S2 f' Je n) \<and>
   \<not> out_stream1Exhausted (JoinedObjectOutputStream_new t1 t2 k) \<and>
   out_hook (out_calls T1 T2 g (JoinedObjectOutputStream_new t1 t2 k) ws) =
     (if out_stream1Exhausted (out_calls T1 T2 g (JoinedObjectOutputStream_new t1 t2 k) ws)
      then g k else k) \<and>
   (\<not> out_stream1Exhausted Kf \<longrightarrow>
      (out_stream1Exhausted (snd (JoinedObjectOutputStreamBase_Write T1 T2 g Kf d)) \<longleftrightarrow>
         \<not> out_cancelled Kf \<and> (\<exists>r s. Write T1 (out_stream1 Kf) d = (Inr r, s) \<and> r < length d)) \<and>
      out_hook (snd (JoinedObjectOutputStreamBase_Write T1 T2 g Kf d)) =
        (if out_stream1Exhausted (snd (JoinedObjectOutputStreamBase_Write T1 T2 g Kf d)) then g (out_hook Kf)
         else out_hook Kf)) \<and>
   (out_stream1Exhausted Ke \<longrightarrow>
      out_stream1Exhausted (out_calls T1 T2 g Ke ws') \<and>
      out_stream1 (out_calls T1 T2 g Ke ws') = out_stream1 Ke \<and>
      out_hook (out_calls T1 T2 g Ke ws') = out_hook Ke \<and>
      JoinedObjectOutputStreamBase_Write T1 T2 g Ke d = JoinedObjectOutputStreamBase_Write T1' T2 g' Ke d)"
proof -
  let ?J0 = "JoinedObjectInputStream_new S1 S2 s1 s2 h"
  let ?K0 = "JoinedObjectOutputStream_new t1 t2 k"
  have i0: "\<not> in_stream1Exhausted ?J0" and ih: "in_hook ?J0 = h"
    by (simp_all add: JoinedObjectInputStream_new_def)
  have o0: "\<not> out_stream1Exhausted ?K0" and oh: "out_hook ?K0 = k"
    by (simp_all add: JoinedObjectOutputStream_new_def)
  have i1: "in_hook (in_calls S1 S2 f ?J0 cs) =
      (if in_stream1Exhausted (in_calls S1 S2 f ?J0 cs) then f h else h)"
    by (rule in_calls_hook) (simp add: i0 ih)
  have o1: "out_hook (out_calls T1 T2 g ?K0 ws) =
      (if out_stream1Exhausted (out_calls T1 T2 g ?K0 ws) then g k else k)"
    by (rule out_calls_hook) (simp add: o0 oh)
  show ?thesis
    using i0 i1 o0 o1
      in_fresh_step [of Jf S1 S2 f n] in_calls_exhausted [of Je S1 S2 f cs']
      in_exhausted_step(4) [of Je S1 S2 f n S1' f']
      out_fresh_step [of Kf T1 T2 g d] out_calls_exhausted [of Ke T1 T2 g ws']
      out_exhausted_step(4) [of Ke T1 T2 g d T1' g']
    by blast
qed

theorem C10_exhaustion_flag_witness:
  "\<not> in_stream1Exhausted
       (JoinedObjectInputStream_new ByteArrayObjectInputStream ByteArrayObjectInputStream
          ([1, 2, 3], 0) ([4, 5], 0) (0::nat)) \<and>
   in_stream1Exhausted
       (in_calls ByteArrayObjectInputStream ByteArrayObjectInputStream Suc
          (JoinedObjectInputStream_new ByteArrayObjectInputStream ByteArrayObjectInputStream
             ([1, 2, 3], 0) ([4, 5], 0) 0) [Call 4]) \<and>
   in_hook
       (in_calls ByteArrayObjectInputStream ByteArrayObjectInputStream Suc
          (JoinedObjectInputStream_new ByteArrayObjectInputStream ByteArrayObjectInputStream
             ([1, 2, 3], 0) ([4, 5], 0) 0) [Call 2, Call 2, Call 2, Cancel, Call 2]) = 1 \<and>
   in_hook
       (in_calls ByteArrayObjectInputStream ByteArrayObjectInputStream Suc
          (in_calls ByteArrayObjectInputStream ByteArrayObjectInputStream Suc
             (JoinedObjectInputStream_new ByteArrayObjectInputStream ByteArrayObjectInputStream
                ([1, 2, 3], 0) ([4, 5], 0) 0) [Call 4]) [Call 1, Cancel, Call 1]) = 1 \<and>
   \<not> out_stream1Exhausted
       (JoinedObjectOutputStream_new ([]::u8 list, 3::nat) ([]::u8 list) (0::nat)) \<and>
   out_stream1Exhausted
       (out_calls FixedSizeByteArrayObjectOutputStream ByteArrayObjectOutputStream Suc
          (JoinedObjectOutputStream_new ([], 3) [] 0) [Call [1, 2, 3, 4]]) \<and>
   out_hook
       (out_calls FixedSizeByteArrayObjectOutputStream ByteArrayObjectOutputStream Suc
          (JoinedObjectOutputStream_new ([], 3) [] 0) [Call [1, 2], Call [3, 4], Call [5]]) = 1 \<and>
   out_stream1
       (out_calls FixedSizeByteArrayObjectOutputStream ByteArrayObjectOutputStream Suc
          (out_calls FixedSizeByteArrayObjectOutputStream ByteArrayObjectOutputStream Suc
             (JoinedObjectOutputStream_new ([], 3) [] 0) [Call [1, 2, 3, 4]])
          [Call [5], Cancel, Call [6]]) = ([1, 2, 3], 3)"
proof -
  let ?A = ByteArrayObjectInputStream
  let ?J0 = "JoinedObjectInputStream_new ?A ?A ([1, 2, 3], 0) ([4, 5], 0) (0::nat)"
  let ?T1 = FixedSizeByteArrayObjectOutputStream and ?T2 = ByteArrayObjectOutputStream
  let ?K0 = "JoinedObjectOutputStream_new ([]::u8 list, 3::nat) ([]::u8 list) (0::nat)"
  have J0: "\<not> in_stream1Exhausted ?J0"
    by (simp add: JoinedObjectInputStream_new_def)
  have Je: "in_stream1Exhausted (in_calls ?A ?A Suc ?J0 [Call 4])"
    by (simp add: JoinedObjectInputStream_new_def JoinedObjectInputStreamBase_Read_def CheckCancelled_def
        ByteArrayObjectInputStream_def)
  have K0: "\<not> out_stream1Exhausted ?K0"
    by (simp add: JoinedObjectOutputStream_new_def)
  have Ke: "out_stream1Exhausted (out_calls ?T1 ?T2 Suc ?K0 [Call [1, 2, 3, 4]])"
    by (simp add: JoinedObjectOutputStream_new_def JoinedObjectOutputStreamBase_Write_def CheckCancelled_def
        FixedSizeByteArrayObjectOutputStream_def ByteArrayObjectOutputStream_def)
  have K1: "out_stream1 (out_calls ?T1 ?T2 Suc ?K0 [Call [1, 2, 3, 4]]) = ([1, 2, 3], 3)"
    by (simp add: JoinedObjectOutputStream_new_def JoinedObjectOutputStreamBase_Write_def CheckCancelled_def
        FixedSizeByteArrayObjectOutputStream_def ByteArrayObjectOutputStream_def)
  note C = C10_exhaustion_flag [of ?A ?A "([1, 2, 3], 0)" "([4, 5], 0)" "0::nat" Suc _
      ?J0 4 "in_calls ?A ?A Suc ?J0 [Call 4]" "[Call 1, Cancel, Call 1]" ?A Suc
      "([], 3)" "[]" "0::nat" ?T1 ?T2 Suc _
      ?K0 "[1, 2, 3, 4]" "out_calls ?T1 ?T2 Suc ?K0 [Call [1, 2, 3, 4]]"
      "[Call [5], Cancel, Call [6]]" ?T1 Suc]
  have h1: "in_hook (in_calls ?A ?A Suc ?J0 [Call 2, Call 2, Call 2, Cancel, Call 2]) = 1"
    using C [of "[Call 2, Call 2, Call 2, Cancel, Call 2]" "[]"]
    by (simp add: JoinedObjectInputStream_new_def JoinedObjectInputStreamBase_Read_def CheckCancelled_def
        ByteArrayObjectInputStream_def in_Cancel_def)
  have h2: "out_hook (out_calls ?T1 ?T2 Suc ?K0 [Call [1, 2], Call [3, 4], Call [5]]) = 1"
    using C [of "[]" "[Call [1, 2], Call [3, 4], Call [5]]"]
    by (simp add: JoinedObjectOutputStream_new_def JoinedObjectOutputStreamBase_Write_def CheckCancelled_def
        FixedSizeByteArrayObjectOutputStream_def ByteArrayObjectOutputStream_def)
  have h3: "in_hook (in_calls ?A ?A Suc (in_calls ?A ?A Suc ?J0 [Call 4]) [Call 1, Cancel, Call 1]) = 1"
    using C [of "[]" "[]"] J0 Je
    by (simp add: JoinedObjectInputStream_new_def JoinedObjectInputStreamBase_Read_def CheckCancelled_def
        ByteArrayObjectInputStream_def)
  have h4: "out_stream1 (out_calls ?T1 ?T2 Suc (out_calls ?T1 ?T2 Suc ?K0 [Call [1, 2, 3, 4]])
        [Call [5], Cancel, Call [6]]) = ([1, 2, 3], 3)"
    using C [of "[]" "[]"] Ke K1 by simp
  show ?thesis using J0 Je K0 Ke h1 h2 h3 h4 by blast
qed

subsection \<open>Path resolution\<close>

lemmas example_defs =
  ExampleDevice_def TestSession_def lookup_def Device_def Root_def AllStorages_def AnyStorage_def
  Any_def Association_def

lemma tolower_slash: "tolower c = tolower CHR ''/'' \<longleftrightarrow> c = CHR ''/''"
proof -
  have s: "tolower CHR ''/'' = CHR ''/''" by (simp add: tolower_def)
  have "tolower c = CHR ''/'' \<Longrightarrow> c = CHR ''/''"
    unfolding tolower_def
    by (auto split: option.splits if_splits)
  then show ?thesis using s by auto
qed

lemma BeginsWith_slash: "BeginsWith path ''/'' \<longleftrightarrow> (\<exists>rest. path = CHR ''/'' # rest)"
  by (cases path) (auto simp: BeginsWith_def tolower_slash)

lemma entities_Nil: "entities [] = []"
  by (simp add: entities.simps)

lemma entities_component:
  assumes "CHR ''/'' \<notin> set a"
  shows "entities (a @ CHR ''/'' # r) = a # entities r"
proof -
  have "takeWhile (\<lambda>c. c \<noteq> CHR ''/'') (a @ CHR ''/'' # r) = a"
    using assms by (subst takeWhile_append2) auto
  moreover have "dropWhile (\<lambda>c. c \<noteq> CHR ''/'') (a @ CHR ''/'' # r) = CHR ''/'' # r"
    using assms by (subst dropWhile_append2) auto
  ultimately show ?thesis by (subst entities.simps) simp
qed

lemma entities_last_component:
  assumes "CHR ''/'' \<notin> set a" and "a \<noteq> []"
  shows "entities a = [a]"
proof -
  have tw: "takeWhile (\<lambda>c. c \<noteq> CHR ''/'') a = a" "dropWhile (\<lambda>c. c \<noteq> CHR ''/'') a = []"
    using assms(1) by (auto simp: takeWhile_eq_all_conv)
  show ?thesis using assms(2) by (subst entities.simps) (simp add: entities_Nil tw)
qed

lemma entities_append_slash:
  "entities (a @ CHR ''/'' # rest) = entities (a @ ''/'') @ entities rest"
proof (induction "length a" arbitrary: a rule: less_induct)
  case less
  show ?case
  proof (cases "CHR ''/'' \<in> set a")
    case False
    then show ?thesis using entities_component [of a] by (simp add: entities_Nil)
  next
    case True
    then obtain a1 a2 where a: "a = a1 @ CHR ''/'' # a2" and a1: "CHR ''/'' \<notin> set a1"
      by (auto dest: split_list_first)
    have "length a2 < length a" using a by simp
    then have IH: "entities (a2 @ CHR ''/'' # rest) = entities (a2 @ ''/'') @ entities rest"
      by (rule less)
    have "entities (a @ CHR ''/'' # rest) = a1 # entities (a2 @ CHR ''/'' # rest)"
      using entities_component [OF a1, of "a2 @ CHR ''/'' # rest"] a by simp
    also have "\<dots> = (a1 # entities (a2 @ ''/'')) @ entities rest" using IH by simp
    also have "a1 # entities (a2 @ ''/'') = entities (a @ ''/'')"
      using entities_component [OF a1, of "a2 @ ''/''"] a by simp
    finally show ?thesis .
  qed
qed

lemma Resolve_loop_entities:
  "Resolve_loop session w cs path p oid =
     Resolve_entities session w cs oid (entities (drop p path))"
proof (induction session w cs path p oid rule: Resolve_loop.induct)
  case (1 session w cs path p oid)
  show ?case
  proof (cases "p < length path")
    case False
    then show ?thesis by (subst Resolve_loop.simps) (simp add: entities_Nil)
  next
    case True
    let ?P = "\<lambda>c. c \<noteq> CHR ''/''"
    let ?s = "drop p path"
    define nxt where "nxt = (case find_char path CHR ''/'' p of None \<Rightarrow> length path | Some i \<Rightarrow> i)"
    define entity where "entity = substr path p (nxt - p)"
    have nxt: "nxt = p + length (takeWhile ?P ?s)"
    proof (cases "CHR ''/'' \<in> set ?s")
      case True
      then show ?thesis by (simp add: nxt_def find_char_def)
    next
      case False
      then have tw: "takeWhile ?P ?s = ?s" by (auto simp: takeWhile_eq_all_conv)
      show ?thesis using False \<open>p < length path\<close> by (simp add: nxt_def find_char_def tw)
    qed
    have entity: "entity = takeWhile ?P ?s"
      by (simp add: entity_def substr_def nxt takeWhile_eq_take [symmetric])
    have rest: "drop (Suc nxt) path = drop (Suc 0) (dropWhile ?P ?s)"
    proof -
      have "drop (Suc nxt) path = drop (Suc 0) (drop (length (takeWhile ?P ?s)) ?s)"
        by (simp add: nxt add.commute)
      then show ?thesis by (simp only: dropWhile_eq_drop [symmetric])
    qed
    have ne: "?s \<noteq> []" using True by simp
    have ents: "entities ?s = entity # entities (drop (nxt + 1) path)"
      using ne by (subst entities.simps) (simp add: entity rest)
    note IH = "1.IH" [OF True nxt_def entity_def]
    show ?thesis
    proof (cases "entity = [] \<or> entity = ''.''")
      case nop: True
      then have "Resolve_loop session w cs path p oid = Resolve_loop session w cs path (nxt + 1) oid"
        using True by (subst Resolve_loop.simps) (simp add: nxt_def [symmetric] entity_def [symmetric] Let_def)
      then show ?thesis using IH(1) [OF nop] nop by (simp add: ents)
    next
      case nonop: False
      show ?thesis
      proof (cases "entity = ''..''")
        case up: True
        show ?thesis
        proof (cases "GetObjectParent session w oid")
          case (Inl e)
          then have "Resolve_loop session w cs path p oid = Inl e"
            using True nonop up
            by (subst Resolve_loop.simps) (simp add: nxt_def [symmetric] entity_def [symmetric] Let_def)
          then show ?thesis using nonop up Inl by (simp add: ents)
        next
          case (Inr parent)
          then have "Resolve_loop session w cs path p oid =
              Resolve_loop session w cs path (nxt + 1) (if parent = Device then Root else parent)"
            using True nonop up
            by (subst Resolve_loop.simps) (simp add: nxt_def [symmetric] entity_def [symmetric] Let_def)
          then show ?thesis using IH(2) [OF nonop up Inr] nonop up Inr by (simp add: ents)
        qed
      next
        case child: False
        show ?thesis
        proof (cases "ResolveObjectChild session w cs oid entity")
          case (Inl e)
          then have "Resolve_loop session w cs path p oid = Inl e"
            using True nonop child
            by (subst Resolve_loop.simps) (simp add: nxt_def [symmetric] entity_def [symmetric] Let_def)
          then show ?thesis using nonop child Inl by (simp add: ents)
        next
          case (Inr c)
          then have "Resolve_loop session w cs path p oid = Resolve_loop session w cs path (nxt + 1) c"
            using True nonop child
            by (subst Resolve_loop.simps) (simp add: nxt_def [symmetric] entity_def [symmetric] Let_def)
          then show ?thesis using IH(3) [OF nonop child Inr] nonop child Inr by (simp add: ents)
        qed
      qed
    qed
  qed
qed

lemma Resolve_entities_append:
  "Resolve_entities session w cs oid (es1 @ es2) =
     (case Resolve_entities session w cs oid es1 of
        Inl e \<Rightarrow> Inl e
      | Inr oid' \<Rightarrow> Resolve_entities session w cs oid' es2)"
  by (induction es1 arbitrary: oid) (auto split: sum.splits)

lemma Resolve_entities_eq:
  "Resolve session w cs cd path =
     Resolve_entities session w cs (if BeginsWith path ''/'' then Root else cd) (entities path)"
  by (simp add: Resolve_def Resolve_loop_entities)

lemma BeginsWith_slash_append:
  "BeginsWith (a @ CHR ''/'' # r) ''/'' = BeginsWith (a @ CHR ''/'' # r') ''/''"
  by (cases a) (simp_all add: BeginsWith_slash)

text \<open>C4: components that are empty or \<open>.\<close> are skipped. \<open>Resolve "/"\<close> is \<open>Root\<close>; for all
  strings \<open>a\<close> and \<open>b\<close>, \<open>Resolve\<close> of \<open>a/./b\<close> and of \<open>a//b\<close> is \<open>Resolve\<close> of \<open>a/b\<close>, in every
  device state and from every current directory, be the result an object or an error.\<close>

theorem C4_dot_and_empty_components:
  "Resolve session w cs cd ''/'' = Inr Root \<and>
   Resolve session w cs cd (a @ ''/./'' @ b) = Resolve session w cs cd (a @ ''/'' @ b) \<and>
   Resolve session w cs cd (a @ ''//'' @ b) = Resolve session w cs cd (a @ ''/'' @ b)"
proof (intro conjI)
  have "entities ''/'' = [[]]"
    using entities_component [of "[]" "[]"] by (simp add: entities_Nil)
  then show "Resolve session w cs cd ''/'' = Inr Root"
    by (simp add: Resolve_entities_eq BeginsWith_slash)
next
  have "entities (''./'' @ b) = ''.'' # entities b"
    using entities_component [of "''.''" b] by simp
  then have "entities (a @ ''/./'' @ b) = entities (a @ ''/'') @ ''.'' # entities b"
    using entities_append_slash [of a "''./'' @ b"] by simp
  moreover have "entities (a @ ''/'' @ b) = entities (a @ ''/'') @ entities b"
    using entities_append_slash [of a b] by simp
  moreover have "BeginsWith (a @ ''/./'' @ b) ''/'' = BeginsWith (a @ ''/'' @ b) ''/''"
    using BeginsWith_slash_append [of a "''./'' @ b" b] by simp
  ultimately show "Resolve session w cs cd (a @ ''/./'' @ b) = Resolve session w cs cd (a @ ''/'' @ b)"
    by (simp add: Resolve_entities_eq Resolve_entities_append split: sum.splits)
next
  have "entities (''/'' @ b) = [] # entities b"
    using entities_component [of "[]" b] by simp
  then have "entities (a @ ''//'' @ b) = entities (a @ ''/'') @ [] # entities b"
    using entities_append_slash [of a "''/'' @ b"] by simp
  moreover have "entities (a @ ''/'' @ b) = entities (a @ ''/'') @ entities b"
    using entities_append_slash [of a b] by simp
  moreover have "BeginsWith (a @ ''//'' @ b) ''/'' = BeginsWith (a @ ''/'' @ b) ''/''"
    using BeginsWith_slash_append [of a "''/'' @ b" b] by simp
  ultimately show "Resolve session w cs cd (a @ ''//'' @ b) = Resolve session w cs cd (a @ ''/'' @ b)"
    by (simp add: Resolve_entities_eq Resolve_entities_append split: sum.splits)
qed

lemma Resolve_entities_tail_cong:
  assumes "\<And>oid'. Resolve_entities session w cs oid' xs = Resolve_entities session w cs oid' ys"
  shows "Resolve_entities session w cs oid (entity # xs) =
         Resolve_entities session w cs oid (entity # ys)"
  using assms by (simp split: sum.splits)

lemma Resolve_entities_trailing_slash:
  "a \<noteq> [] \<Longrightarrow>
   Resolve_entities session w cs oid (entities (a @ ''/'')) =
   Resolve_entities session w cs oid (entities a)"
proof (induction "length a" arbitrary: a oid rule: less_induct)
  case less
  show ?case
  proof (cases "CHR ''/'' \<in> set a")
    case False
    then have "entities (a @ ''/'') = [a]" "entities a = [a]"
      using entities_component [of a "[]"] entities_last_component [of a] less.prems
      by (simp_all add: entities_Nil)
    then show ?thesis by simp
  next
    case True
    then obtain a1 a2 where a: "a = a1 @ CHR ''/'' # a2" and a1: "CHR ''/'' \<notin> set a1"
      by (auto dest: split_list_first)
    have e1: "entities (a @ ''/'') = a1 # entities (a2 @ ''/'')"
      using entities_component [OF a1, of "a2 @ ''/''"] a by simp
    have e2: "entities a = a1 # entities a2"
      using entities_component [OF a1, of a2] a by simp
    have "Resolve_entities session w cs oid' (entities (a2 @ ''/'')) =
          Resolve_entities session w cs oid' (entities a2)" for oid'
    proof (cases "a2 = []")
      case True
      have "entities ''/'' = [[]]"
        using entities_component [of "[]" "[]"] by (simp add: entities_Nil)
      then show ?thesis using True by (simp add: entities_Nil)
    next
      case False
      moreover have "length a2 < length a" using a by simp
      ultimately show ?thesis using less.hyps by blast
    qed
    then show ?thesis unfolding e1 e2 by (rule Resolve_entities_tail_cong)
  qed
qed

lemma Resolve_dotdot_after:
  assumes "a \<noteq> []"
  shows "Resolve session w cs cd (a @ ''/..'') =
     (case Resolve session w cs cd a of
        Inl e \<Rightarrow> Inl e
      | Inr oid \<Rightarrow>
          (case GetObjectParent session w oid of
             Inl e \<Rightarrow> Inl e
           | Inr parent \<Rightarrow> Inr (if parent = Device then Root else parent)))"
proof -
  have b: "BeginsWith (a @ ''/..'') ''/'' = BeginsWith a ''/''"
    using assms by (cases a) (simp_all add: BeginsWith_slash)
  have "entities ''..'' = [''..'']" by (rule entities_last_component) simp_all
  then have e: "entities (a @ ''/..'') = entities (a @ ''/'') @ [''..'']"
    using entities_append_slash [of a "''..''"] by simp
  show ?thesis
    unfolding Resolve_entities_eq b e Resolve_entities_append
      Resolve_entities_trailing_slash [OF assms]
    by (simp split: sum.splits)
qed

text \<open>C5: \<open>..\<close> resolves to what \<open>GetObjectParent\<close> returns for the current object, with
  \<open>Device\<close> replaced by \<open>Root\<close>: this holds for the path \<open>..\<close> from the current directory and
  for \<open>q/..\<close> from the object that any path \<open>q\<close> resolves to. Consequently, if the component
  \<open>a\<close> (a name: not empty, not \<open>.\<close> or \<open>..\<close>, without \<open>/\<close>) exists under the starting directory
  \<open>cd\<close>, that is, the lookup of \<open>a\<close> among the children of \<open>cd\<close> finds an object \<open>h\<close> and the
  device reports \<open>cd\<close> as the parent of \<open>h\<close> (\<open>Device\<close> standing for \<open>Root\<close>), then for every
  relative path \<open>b\<close>, \<open>Resolve\<close> of \<open>a/../b\<close> is \<open>Resolve\<close> of \<open>b\<close>.\<close>

theorem C5_dotdot_parent:
  "Resolve session w cs cd ''..'' =
     (case GetObjectParent session w cd of
        Inl e \<Rightarrow> Inl e
      | Inr parent \<Rightarrow> Inr (if parent = Device then Root else parent)) \<and>
   (q \<noteq> [] \<longrightarrow>
    Resolve session w cs cd (q @ ''/..'') =
      (case Resolve session w cs cd q of
         Inl e \<Rightarrow> Inl e
       | Inr oid \<Rightarrow>
           (case GetObjectParent session w oid of
              Inl e \<Rightarrow> Inl e
            | Inr parent \<Rightarrow> Inr (if parent = Device then Root else parent)))) \<and>
   (a \<noteq> [] \<and> a \<noteq> ''.'' \<and> a \<noteq> ''..'' \<and> CHR ''/'' \<notin> set a \<and> \<not> BeginsWith b ''/'' \<and>
    ResolveObjectChild session w cs cd a = Inr h \<and>
    GetObjectParent session w h = Inr parent \<and>
    (if parent = Device then Root else parent) = cd \<longrightarrow>
    Resolve session w cs cd (a @ ''/../'' @ b) = Resolve session w cs cd b)"
proof (intro conjI impI)
  have "entities ''..'' = [''..'']" by (rule entities_last_component) simp_all
  then show "Resolve session w cs cd ''..'' =
     (case GetObjectParent session w cd of
        Inl e \<Rightarrow> Inl e
      | Inr parent \<Rightarrow> Inr (if parent = Device then Root else parent))"
    by (simp add: Resolve_entities_eq BeginsWith_slash split: sum.splits)
next
  assume "q \<noteq> []"
  then show "Resolve session w cs cd (q @ ''/..'') =
      (case Resolve session w cs cd q of
         Inl e \<Rightarrow> Inl e
       | Inr oid \<Rightarrow>
           (case GetObjectParent session w oid of
              Inl e \<Rightarrow> Inl e
            | Inr parent \<Rightarrow> Inr (if parent = Device then Root else parent)))"
    by (rule Resolve_dotdot_after)
next
  assume A: "a \<noteq> [] \<and> a \<noteq> ''.'' \<and> a \<noteq> ''..'' \<and> CHR ''/'' \<notin> set a \<and> \<not> BeginsWith b ''/'' \<and>
    ResolveObjectChild session w cs cd a = Inr h \<and>
    GetObjectParent session w h = Inr parent \<and>
    (if parent = Device then Root else parent) = cd"
  then have a: "CHR ''/'' \<notin> set a" by simp
  have "entities (''../'' @ b) = ''..'' # entities b"
    using entities_component [of "''..''" b] by simp
  then have ents: "entities (a @ ''/../'' @ b) = a # ''..'' # entities b"
    using entities_component [OF a, of "''../'' @ b"] by simp
  have rel: "\<not> BeginsWith (a @ ''/../'' @ b) ''/''"
    using A by (cases a) (auto simp: BeginsWith_slash)
  have 1: "Resolve session w cs cd (a @ ''/../'' @ b) =
      Resolve_entities session w cs cd (a # ''..'' # entities b)"
    unfolding Resolve_entities_eq ents using rel by simp
  have 2: "Resolve session w cs cd b = Resolve_entities session w cs cd (entities b)"
    using A by (simp add: Resolve_entities_eq)
  show "Resolve session w cs cd (a @ ''/../'' @ b) = Resolve session w cs cd b"
    unfolding 1 2 using A by simp
qed

theorem C5_dotdot_parent_witness:
  "''photos'' \<noteq> [] \<and> ''photos'' \<noteq> ''.'' \<and> ''photos'' \<noteq> ''..'' \<and> CHR ''/'' \<notin> set ''photos'' \<and>
   \<not> BeginsWith ''b'' ''/'' \<and>
   ResolveObjectChild TestSession ExampleDevice AllStorages Root ''photos'' = Inr 1 \<and>
   GetObjectParent TestSession ExampleDevice 1 = Inr Device \<and>
   Resolve TestSession ExampleDevice AllStorages Root ''photos/../b'' =
     Resolve TestSession ExampleDevice AllStorages Root ''b'' \<and>
   Resolve TestSession ExampleDevice AllStorages 1 ''..'' = Inr Root \<and>
   Resolve TestSession ExampleDevice AllStorages Root ''photos/a.jpg/..'' = Inr 1"
proof -
  have 1: "ResolveObjectChild TestSession ExampleDevice AllStorages Root ''photos'' = Inr 1"
    by (simp add: ResolveObjectChild_def example_defs)
  have 2: "GetObjectParent TestSession ExampleDevice 1 = Inr Device"
    by (simp add: example_defs)
  have 3: "\<not> BeginsWith ''b'' ''/''" by (simp add: BeginsWith_slash)
  have 4: "Resolve TestSession ExampleDevice AllStorages Root ''photos/a.jpg'' = Inr 2"
    by (simp add: Resolve_def Resolve_loop.simps find_char_def substr_def BeginsWith_slash
        ResolveObjectChild_def example_defs)
  have 5: "GetObjectParent TestSession ExampleDevice 2 = Inr 1"
    by (simp add: example_defs)
  note C = C5_dotdot_parent [of TestSession ExampleDevice AllStorages _ _ "''photos''" "''b''" 1 Device]
  have "Resolve TestSession ExampleDevice AllStorages Root ''photos/../b'' =
     Resolve TestSession ExampleDevice AllStorages Root ''b''"
    using C [of Root "[]"] 1 2 3 by simp
  moreover have "Resolve TestSession ExampleDevice AllStorages 1 ''..'' = Inr Root"
    using C [of 1 "[]"] 2 by simp
  moreover have "Resolve TestSession ExampleDevice AllStorages Root ''photos/a.jpg/..'' = Inr 1"
    using C [of Root "''photos/a.jpg''"] 4 5 by (simp add: Device_def)
  ultimately show ?thesis using 1 2 3 by simp
qed

lemma ResolveObjectChild_loop_first:
  assumes "\<forall>x\<in>set pre. \<exists>name. GetObjectStringProperty session w x ObjectFilename = Inr name \<and>
                              name \<noteq> entity"
    and "GetObjectStringProperty session w h ObjectFilename = Inr entity"
  shows "ResolveObjectChild_loop session w entity (pre @ h # post) = Inr h"
  using assms by (induction pre) auto

lemma ResolveObjectChild_loop_none:
  assumes "\<forall>x\<in>set hs. \<exists>name. GetObjectStringProperty session w x ObjectFilename = Inr name \<and>
                             name \<noteq> entity"
  shows "ResolveObjectChild_loop session w entity hs = Inl (PathNotFound entity)"
  using assms by (induction hs) auto

text \<open>C6: \<open>ResolveObjectChild\<close> lists the handles under the parent and compares the
  \<open>ObjectFilename\<close> of each with the component by string equality (so case matters). It
  returns the first handle \<open>h\<close> of the list whose file name is the component: the handles
  \<open>pre\<close> before it have other names, and the handles \<open>post\<close> after it are not looked at. If
  every handle of the list has a name other than the component (in particular if the list
  is empty), the lookup fails with \<open>PathNotFound\<close>, which carries the component.\<close>

theorem C6_ResolveObjectChild:
  "(GetObjectHandles session w cs Any parent = Inr (pre @ h # post) \<and>
    (\<forall>x\<in>set pre. \<exists>name. GetObjectStringProperty session w x ObjectFilename = Inr name \<and>
                          name \<noteq> entity) \<and>
    GetObjectStringProperty session w h ObjectFilename = Inr entity \<longrightarrow>
    ResolveObjectChild session w cs parent entity = Inr h) \<and>
   (GetObjectHandles session w cs Any parent = Inr hs \<and>
    (\<forall>x\<in>set hs. \<exists>name. GetObjectStringProperty session w x ObjectFilename = Inr name \<and>
                         name \<noteq> entity) \<longrightarrow>
    ResolveObjectChild session w cs parent entity = Inl (PathNotFound entity))"
  by (simp add: ResolveObjectChild_def ResolveObjectChild_loop_first ResolveObjectChild_loop_none)

theorem C6_ResolveObjectChild_witness:
  "GetObjectHandles TestSession ExampleDevice AllStorages Any Root = Inr ([1, 4] @ 5 # [6]) \<and>
   ResolveObjectChild TestSession ExampleDevice AllStorages Root ''Photos'' = Inr 5 \<and>
   ResolveObjectChild TestSession ExampleDevice AllStorages Root ''PHOTOS'' =
     Inl (PathNotFound ''PHOTOS'') \<and>
   ResolveObjectChild TestSession ExampleDevice AllStorages 2 ''x'' = Inl (PathNotFound ''x'')"
proof -
  have hs: "GetObjectHandles TestSession ExampleDevice AllStorages Any Root = Inr ([1, 4] @ 5 # [6])"
    by (simp add: example_defs)
  have hs2: "GetObjectHandles TestSession ExampleDevice AllStorages Any 2 = Inr []"
    by (simp add: example_defs)
  have n: "GetObjectStringProperty TestSession ExampleDevice 1 ObjectFilename = Inr ''photos''"
    "GetObjectStringProperty TestSession ExampleDevice 4 ObjectFilename = Inr ''b''"
    "GetObjectStringProperty TestSession ExampleDevice 5 ObjectFilename = Inr ''Photos''"
    "GetObjectStringProperty TestSession ExampleDevice 6 ObjectFilename = Inr ''b''"
    by (simp_all add: example_defs)
  have "ResolveObjectChild TestSession ExampleDevice AllStorages Root ''Photos'' = Inr 5"
    using C6_ResolveObjectChild [of TestSession ExampleDevice AllStorages Root "[1, 4]" 5 "[6]"
        "''Photos''" "[]"] hs n by simp
  moreover have "ResolveObjectChild TestSession ExampleDevice AllStorages Root ''PHOTOS'' =
     Inl (PathNotFound ''PHOTOS'')"
    using C6_ResolveObjectChild [of TestSession ExampleDevice AllStorages Root "[]" 0 "[]"
        "''PHOTOS''" "[1, 4, 5, 6]"] hs n by simp
  moreover have "ResolveObjectChild TestSession ExampleDevice AllStorages 2 ''x'' =
     Inl (PathNotFound ''x'')"
    using C6_ResolveObjectChild [of TestSession ExampleDevice AllStorages 2 "[]" 0 "[]"
        "''x''" "[]"] hs2 by simp
  ultimately show ?thesis using hs by simp
qed

subsection \<open>Recursive put and get\<close>


lemma Put_loop_spec_put_each:
  "Put_loop session F cs dirId dst src (dirstream_of es EndOfDir) w =
     spec_put_each session F cs dirId dst src
       (filter (\<lambda>(fname, node). fname \<noteq> ''.'' \<and> fname \<noteq> ''..'') es) w"
proof (induction es arbitrary: w)
  case Nil
  then show ?case by simp
next
  case (Cons en es)
  obtain fname node where en: "en = (fname, node)" by (cases en)
  show ?case
  proof (cases "fname = ''.'' \<or> fname = ''..''")
    case True
    then show ?thesis using Cons.IH [of w] by (auto simp: en)
  next
    case False
    obtain r w1 where p: "Put session F cs dirId (dst @ ''/'' @ fname) (src @ ''/'' @ fname) node w = (r, w1)"
      by (cases "Put session F cs dirId (dst @ ''/'' @ fname) (src @ ''/'' @ fname) node w")
    show ?thesis using False p Cons.IH [of w1] by (cases r) (simp_all add: en)
  qed
qed





text \<open>C7, counterexample: the example device refuses to create \<open>photos\<close> with the response
  \<open>AccessDenied\<close>, which does not say that the object exists; all the same the existing
  child \<open>photos\<close> (handle 1) becomes the destination, and the file of the directory is sent
  into it.\<close>

theorem C7_counterexample:
  "fst (CreateDirectory TestSession ExampleDevice ''photos'' Root) = Inl (InvalidResponse 0x200F) \<and>
   MakeOrResolveDirectory TestSession ExampleDevice AllStorages Root ''photos'' ''photos'' =
     (Inr 1, ExampleDevice) \<and>
   Put TestSession (\<lambda>name. 0x3000) AllStorages Root ''photos'' ''photos''
       (Directory (Entry ''c.jpg'' (RegularFile [7]) EndOfDir)) ExampleDevice =
     (Inr (), ExampleDevice\<lparr>objects := objects ExampleDevice @
        [\<lparr> o_id = 7, o_parent = 1, o_name = ''c.jpg'', o_format = 0x3000, o_data = [7] \<rparr>]\<rparr>)"
  by (simp add: CreateDirectory_def MakeOrResolveDirectory_def ResolveObjectChild_def
      GetFilename_def rfind_char_def example_defs Let_def)

text \<open>C7, as amended: for a directory source, \<open>Put\<close> first sends an object info with the
  file name of the destination and the format Association. If the device accepts it, the
  new object is the destination. If the attempt fails, with whatever error \<open>e\<close>, a child of
  the parent is looked up by name (stated for a source path that is the directory's name):
  when it is found it is the destination, otherwise the error of the lookup ends the put.
  The entries of the directory are then put into the destination one after the other, in
  order and up to the first failure, all except \<open>.\<close> and \<open>..\<close>.\<close>

theorem C7_put_directory:
  "(SendObjectInfo session w \<lparr> Filename = GetFilename dst, ObjectFormat = Association, Size = 0 \<rparr>
      AnyStorage parentId = (Inr noi, w') \<longrightarrow>
    Put session F cs parentId dst src (Directory dir) w =
      Put_loop session F cs (ObjectId noi) dst src dir w') \<and>
   (SendObjectInfo session w \<lparr> Filename = GetFilename dst, ObjectFormat = Association, Size = 0 \<rparr>
      AnyStorage parentId = (Inl e, w') \<and> src = GetFilename dst \<longrightarrow>
    Put session F cs parentId dst src (Directory dir) w =
      (case ResolveObjectChild session w' cs parentId (GetFilename dst) of
         Inl e' \<Rightarrow> (Inl e', w')
       | Inr child \<Rightarrow> Put_loop session F cs child dst src dir w')) \<and>
   Put_loop session F cs dirId dst src (dirstream_of es EndOfDir) w =
     spec_put_each session F cs dirId dst src
       (filter (\<lambda>(fname, node). fname \<noteq> ''.'' \<and> fname \<noteq> ''..'') es) w"
proof (intro conjI impI)
  assume "SendObjectInfo session w \<lparr> Filename = GetFilename dst, ObjectFormat = Association, Size = 0 \<rparr>
      AnyStorage parentId = (Inr noi, w')"
  then show "Put session F cs parentId dst src (Directory dir) w =
      Put_loop session F cs (ObjectId noi) dst src dir w'"
    by (simp add: MakeOrResolveDirectory_def CreateDirectory_def)
next
  assume "SendObjectInfo session w \<lparr> Filename = GetFilename dst, ObjectFormat = Association, Size = 0 \<rparr>
      AnyStorage parentId = (Inl e, w') \<and> src = GetFilename dst"
  then show "Put session F cs parentId dst src (Directory dir) w =
      (case ResolveObjectChild session w' cs parentId (GetFilename dst) of
         Inl e' \<Rightarrow> (Inl e', w')
       | Inr child \<Rightarrow> Put_loop session F cs child dst src dir w')"
    by (simp add: MakeOrResolveDirectory_def CreateDirectory_def split: sum.splits)
next
  show "Put_loop session F cs dirId dst src (dirstream_of es EndOfDir) w =
     spec_put_each session F cs dirId dst src
       (filter (\<lambda>(fname, node). fname \<noteq> ''.'' \<and> fname \<noteq> ''..'') es) w"
    by (rule Put_loop_spec_put_each)
qed

theorem C7_put_directory_witness:
  "Put TestSession (\<lambda>name. 0x3000) AllStorages Root ''music'' ''music''
       (Directory (dirstream_of [(''.'', Directory EndOfDir), (''..'', Directory EndOfDir),
                                 (''s.mp3'', RegularFile [5])] EndOfDir)) ExampleDevice =
     (Inr (), ExampleDevice\<lparr>objects := objects ExampleDevice @
        [\<lparr> o_id = 7, o_parent = Device, o_name = ''music'', o_format = Association, o_data = [] \<rparr>,
         \<lparr> o_id = 8, o_parent = 7, o_name = ''s.mp3'', o_format = 0x3000, o_data = [5] \<rparr>]\<rparr>) \<and>
   Put TestSession (\<lambda>name. 0x3000) AllStorages Root ''photos'' ''photos''
       (Directory (dirstream_of [(''.'', Directory EndOfDir), (''c.jpg'', RegularFile [7])] EndOfDir))
       ExampleDevice =
     (Inr (), ExampleDevice\<lparr>objects := objects ExampleDevice @
        [\<lparr> o_id = 7, o_parent = 1, o_name = ''c.jpg'', o_format = 0x3000, o_data = [7] \<rparr>]\<rparr>)"
proof -
  let ?F = "\<lambda>name :: string. 0x3000 :: ObjectFormat"
  let ?new = "ExampleDevice\<lparr>objects := objects ExampleDevice @
        [\<lparr> o_id = 7, o_parent = Device, o_name = ''music'', o_format = Association, o_data = [] \<rparr>]\<rparr>"
  have f: "GetFilename ''music'' = ''music''" "GetFilename ''photos'' = ''photos''"
    by (simp_all add: GetFilename_def rfind_char_def)
  have s1: "SendObjectInfo TestSession ExampleDevice
      \<lparr> Filename = GetFilename ''music'', ObjectFormat = Association, Size = 0 \<rparr> AnyStorage Root =
      (Inr \<lparr> StorageId = 0x10001, ParentObjectId = Root, ObjectId = 7 \<rparr>, ?new)"
    by (simp add: f example_defs Let_def)
  have s2: "SendObjectInfo TestSession ExampleDevice
      \<lparr> Filename = GetFilename ''photos'', ObjectFormat = Association, Size = 0 \<rparr> AnyStorage Root =
      (Inl (InvalidResponse 0x200F), ExampleDevice)"
    by (simp add: f example_defs Let_def)
  have r: "ResolveObjectChild TestSession ExampleDevice AllStorages Root ''photos'' = Inr 1"
    by (simp add: ResolveObjectChild_def example_defs)
  let ?es1 = "[(''.'', Directory EndOfDir), (''..'', Directory EndOfDir), (''s.mp3'', RegularFile [5])]"
  let ?es2 = "[(''.'', Directory EndOfDir), (''c.jpg'', RegularFile [7])]"
  have a: "Put TestSession ?F AllStorages Root ''music'' ''music''
       (Directory (dirstream_of ?es1 EndOfDir)) ExampleDevice =
     spec_put_each TestSession ?F AllStorages 7 ''music'' ''music'' [(''s.mp3'', RegularFile [5])] ?new"
    using C7_put_directory [where session = TestSession and w = ExampleDevice and dst = "''music''"
        and src = "''music''" and parentId = Root and w' = ?new and F = ?F and cs = AllStorages
        and noi = "\<lparr> StorageId = 0x10001, ParentObjectId = Root, ObjectId = 7 \<rparr>"
        and dir = "dirstream_of ?es1 EndOfDir"]
      s1
      C7_put_directory [where session = TestSession and w = ?new and dst = "''music''"
        and src = "''music''" and F = ?F and cs = AllStorages and dirId = 7 and es = ?es1]
    by simp
  have b: "Put TestSession ?F AllStorages Root ''photos'' ''photos''
       (Directory (dirstream_of ?es2 EndOfDir)) ExampleDevice =
     spec_put_each TestSession ?F AllStorages 1 ''photos'' ''photos'' [(''c.jpg'', RegularFile [7])]
       ExampleDevice"
    using C7_put_directory [where session = TestSession and w = ExampleDevice and dst = "''photos''"
        and src = "''photos''" and parentId = Root and w' = ExampleDevice and F = ?F
        and cs = AllStorages and e = "InvalidResponse 0x200F"
        and dir = "dirstream_of ?es2 EndOfDir" and dirId = 1 and es = ?es2]
      s2 r f
    by simp
  show ?thesis
    unfolding a b
    by (simp add: GetFilename_def rfind_char_def example_defs Let_def)
qed




end
